theory Spec2Isabelle
  imports Main "HOL-Library.Word"
begin

unbundle bit_operations_syntax

section \<open>Basic types\<close>

text \<open>
  \<open>QChar\<close> is a UTF-16 code unit, \<open>QString\<close> a sequence of them, \<open>QByteArray\<close>
  (and \<open>Utf8String\<close>) a sequence of bytes.  \<open>int32\<close>, \<open>int\<close> are 32-bit words read
  through \<open>sint\<close>; \<open>uint64\<close> and \<open>PeerId\<close> are 64-bit words.
\<close>

type_synonym QChar = "16 word"
type_synonym QString = "QChar list"
type_synonym QByteArray = "8 word list"
type_synonym int32 = "32 word"
type_synonym int64 = "64 word"
type_synonym uint64 = "64 word"
type_synonym PeerId = "64 word"

text \<open>A string literal of the source (ASCII), read as a \<open>QString\<close>.\<close>

definition qstr :: "string \<Rightarrow> QString" where
  "qstr s = map (\<lambda>c. of_nat (of_char c)) s"

text \<open>
  A failed \<open>Expects\<close>/\<open>Assert\<close>/\<open>Unexpected\<close> terminates the program; so does reading
  through a null \<open>unique_ptr\<close>, or a vector out of range.
\<close>

datatype fatal = ExpectsFailed | AssertFailed | UnexpectedFailed | NullDereference | OutOfRange

section \<open>Peer identifiers (export\_data\_types.cpp)\<close>

definition kUserPeerIdShift :: uint64 where
  "kUserPeerIdShift = push_bit 32 1"

definition kChatPeerIdShift :: uint64 where
  "kChatPeerIdShift = push_bit 32 2"

text \<open>\<open>uint32(userId)\<close> widened to 64 bits is the zero extension of the 32-bit word.\<close>

definition UserPeerId :: "int32 \<Rightarrow> PeerId" where
  "UserPeerId userId = kUserPeerIdShift OR ucast userId"

definition ChatPeerId :: "int32 \<Rightarrow> PeerId" where
  "ChatPeerId chatId = kChatPeerIdShift OR ucast chatId"

definition BarePeerId :: "PeerId \<Rightarrow> int32" where
  "BarePeerId peerId = ucast (peerId AND 0xFFFFFFFF)"

section \<open>File locations and the cache of loaded files (export\_api\_wrap.cpp)\<close>

text \<open>
  The four variants of \<open>MTPInputFileLocation\<close> that \<open>ComputeLocationKey\<close> matches on,
  with the fields the constructors \<open>MTP_inputFileLocation\<close> and
  \<open>MTP_inputDocumentFileLocation\<close> take in the source.
\<close>

datatype MTPInputFileLocation =
    InputFileLocation (vvolume_id: int64) (vlocal_id: int32) (vsecret: int64)
  | InputDocumentFileLocation (vdoc_id: int64) (vdoc_access_hash: int64) (vversion: int32)
  | InputSecureFileLocation (vsec_id: int64) (vsec_access_hash: int64)
  | InputEncryptedFileLocation (venc_id: int64) (venc_access_hash: int64)

record FileLocation =
  dcId :: int32
  data :: MTPInputFileLocation

record LocationKey =
  key_type :: uint64
  key_id :: uint64

text \<open>\<open>result.type = value.dcId\<close> converts a signed \<open>int\<close> to \<open>uint64\<close>: sign extension.\<close>

definition ComputeLocationKey :: "FileLocation \<Rightarrow> LocationKey" where
  "ComputeLocationKey v =
     (let t = (scast (dcId v) :: uint64) in
      case data v of
        InputFileLocation volume local secret \<Rightarrow>
          \<lparr> key_type = (t OR push_bit 24 1) OR push_bit 32 (ucast local), key_id = volume \<rparr>
      | InputDocumentFileLocation i h ver \<Rightarrow> \<lparr> key_type = t OR push_bit 24 2, key_id = i \<rparr>
      | InputSecureFileLocation i h \<Rightarrow> \<lparr> key_type = t OR push_bit 24 3, key_id = i \<rparr>
      | InputEncryptedFileLocation i h \<Rightarrow> \<lparr> key_type = t OR push_bit 24 4, key_id = i \<rparr>)"

text \<open>
  \<open>LoadedFileCache\<close>: \<open>_limit\<close>, the \<open>std::map\<close> and the \<open>std::deque\<close> of keys.  The
  constructor expects a non-negative limit, so the stored limit is a natural number and
  \<open>_list.size() > _limit\<close> compares two non-negative numbers.
\<close>

record LoadedFileCache =
  cache_limit :: nat
  cache_map :: "LocationKey \<rightharpoonup> QString"
  cache_list :: "LocationKey list"

definition LoadedFileCache_new :: "int \<Rightarrow> fatal + LoadedFileCache" where
  "LoadedFileCache_new limit =
     (if limit \<ge> 0
      then Inr \<lparr> cache_limit = nat limit, cache_map = Map.empty, cache_list = [] \<rparr>
      else Inl ExpectsFailed)"

definition cache_save :: "LoadedFileCache \<Rightarrow> FileLocation \<Rightarrow> QString \<Rightarrow> LoadedFileCache" where
  "cache_save c location relativePath =
     (let key = ComputeLocationKey location;
          m = (cache_map c)(key \<mapsto> relativePath);
          l = cache_list c @ [key]
      in if length l > cache_limit c
         then (case l of
                 front # rest \<Rightarrow> c\<lparr> cache_map := m(front := None), cache_list := rest \<rparr>
               | [] \<Rightarrow> c\<lparr> cache_map := m, cache_list := l \<rparr>)
         else c\<lparr> cache_map := m, cache_list := l \<rparr>)"

definition cache_find :: "LoadedFileCache \<Rightarrow> FileLocation \<Rightarrow> QString option" where
  "cache_find c location = cache_map c (ComputeLocationKey location)"

text \<open>
  A client of the cache calls \<open>save\<close> and \<open>find\<close> in some order; \<open>find\<close> is a
  \<open>const\<close> method and leaves the cache as it is.
\<close>

datatype cache_op = Save FileLocation QString | Find FileLocation

fun cache_apply :: "LoadedFileCache \<Rightarrow> cache_op \<Rightarrow> LoadedFileCache" where
  "cache_apply c (Save location relativePath) = cache_save c location relativePath"
| "cache_apply c (Find location) = c"

definition cache_run :: "LoadedFileCache \<Rightarrow> cache_op list \<Rightarrow> LoadedFileCache" where
  "cache_run c ops = foldl cache_apply c ops"

fun saves_of :: "cache_op list \<Rightarrow> (FileLocation \<times> QString) list" where
  "saves_of [] = []"
| "saves_of (Save location relativePath # ops) = (location, relativePath) # saves_of ops"
| "saves_of (Find location # ops) = saves_of ops"

definition save_all :: "LoadedFileCache \<Rightarrow> (FileLocation \<times> QString) list \<Rightarrow> LoadedFileCache" where
  "save_all c saves = foldl (\<lambda>c (location, relativePath). cache_save c location relativePath) c saves"

definition keyOf :: "FileLocation \<times> QString \<Rightarrow> LocationKey" where
  "keyOf s = ComputeLocationKey (fst s)"

text \<open>Two document locations on data centre 2, used as concrete inputs below.\<close>

definition locA :: FileLocation where
  "locA = \<lparr> dcId = 2, data = InputDocumentFileLocation 10 77 0 \<rparr>"

definition locB :: FileLocation where
  "locB = \<lparr> dcId = 2, data = InputDocumentFileLocation 11 78 0 \<rparr>"

section \<open>Strings and numbers (export\_data\_types.cpp)\<close>

text \<open>\<open>std::to_string\<close> on an unsigned value: its decimal digits, most significant first.\<close>

definition digit_char :: "nat \<Rightarrow> char" where
  "digit_char d = ''0123456789'' ! d"

fun to_string :: "nat \<Rightarrow> string" where
  "to_string n = (if n < 10 then [digit_char n] else to_string (n div 10) @ [digit_char (n mod 10)])"

declare to_string.simps [simp del]

text \<open>On a signed value, a minus sign comes first.\<close>

definition to_string_int :: "int \<Rightarrow> string" where
  "to_string_int i = (if i < 0 then CHR ''-'' # to_string (nat (- i)) else to_string (nat i))"

definition FillLeft :: "string \<Rightarrow> int \<Rightarrow> char \<Rightarrow> string" where
  "FillLeft str width filler =
     (if width \<le> int (length str) then str
      else replicate (nat (width - int (length str))) filler @ str)"

text \<open>
  Modelled from the spec: \<open>Data::NumberToString(value, length = 0, filler = '0')\<close> is
  declared in export\_data\_types.h, which is not among the sources; it prints the number
  in decimal and pads it on the left to the given width (``zero-padded to the digit
  width''), which is what \<open>FillLeft\<close> of this file does.
\<close>

definition NumberToString :: "int \<Rightarrow> int \<Rightarrow> char \<Rightarrow> string" where
  "NumberToString v width filler = FillLeft (to_string_int v) width filler"

text \<open>\<open>list.size() - 1\<close> is computed on \<open>size_t\<close>: for the empty list it wraps around.\<close>

definition size_minus_one :: "nat \<Rightarrow> int" where
  "size_minus_one n = (int n - 1) mod 2 ^ 64"

section \<open>Cleaning document names (export\_data\_types.cpp)\<close>

datatype Platform = Q_OS_WIN | Q_OS_MAC | Q_OS_LINUX | Q_OS_OTHER

text \<open>The array \<open>controls\<close>, with the entries that the preprocessor adds on each platform.\<close>

definition controls :: "Platform \<Rightarrow> QChar list" where
  "controls os =
     [0x200E, 0x200F, 0x202A, 0x202B, 0x202D, 0x202E, 0x2066, 0x2067] @
     (case os of
        Q_OS_WIN \<Rightarrow> qstr [CHR 0x5C, CHR ''/'', CHR '':'', CHR ''*'', CHR ''?'', CHR 0x22,
                           CHR ''<'', CHR ''>'', CHR ''|'']
      | Q_OS_MAC \<Rightarrow> qstr [CHR '':'']
      | Q_OS_LINUX \<Rightarrow> qstr [CHR ''/'']
      | Q_OS_OTHER \<Rightarrow> [])"

definition replace_char :: "QString \<Rightarrow> QChar \<Rightarrow> QChar \<Rightarrow> QString" where
  "replace_char name before after = map (\<lambda>c. if c = before then after else c) name"

definition underscore :: QChar where
  "underscore = 0x5F"

definition endsWith :: "QString \<Rightarrow> QString \<Rightarrow> bool" where
  "endsWith s e = (length e \<le> length s \<and> drop (length s - length e) s = e)"

text \<open>
  \<open>QChar::isSpace\<close> and \<open>QString::trimmed\<close> as Qt documents them: the ASCII white space
  \<open>\t \n \v \f \r\<close> and the blank, U+0085, U+00A0 and the Unicode space separators;
  \<open>trimmed\<close> removes white space from both ends.
\<close>

definition isSpace :: "QChar \<Rightarrow> bool" where
  "isSpace c = (c \<in> set [0x09, 0x0A, 0x0B, 0x0C, 0x0D, 0x20, 0x85, 0xA0, 0x1680,
                         0x2000, 0x2001, 0x2002, 0x2003, 0x2004, 0x2005, 0x2006, 0x2007,
                         0x2008, 0x2009, 0x200A, 0x2028, 0x2029, 0x202F, 0x205F, 0x3000])"

definition trimmed :: "QString \<Rightarrow> QString" where
  "trimmed s = rev (dropWhile isSpace (rev (dropWhile isSpace s)))"

definition kBadExtensions :: "QString list" where
  "kBadExtensions = [qstr ''.lnk'', qstr ''.scf'']"

definition kMaskExtension :: QString where
  "kMaskExtension = qstr ''.download''"

text \<open>The loop \<open>for (const auto extension : kBadExtensions)\<close> with its early return.\<close>

fun mask_bad_extension :: "QString \<Rightarrow> QString \<Rightarrow> QString list \<Rightarrow> QString" where
  "mask_bad_extension name lower [] = name"
| "mask_bad_extension name lower (extension # rest) =
     (if endsWith lower extension then name @ kMaskExtension
      else mask_bad_extension name lower rest)"

text \<open>
  \<open>QString::toLower\<close> is Qt's Unicode case mapping; it is a parameter of the model.
  On the platforms other than Windows the extension check is compiled out.
\<close>

definition CleanDocumentName :: "(QString \<Rightarrow> QString) \<Rightarrow> Platform \<Rightarrow> QString \<Rightarrow> QString" where
  "CleanDocumentName toLower os name0 =
     (let name = foldl (\<lambda>name ch. replace_char name ch underscore) name0 (controls os) in
      case os of
        Q_OS_WIN \<Rightarrow> mask_bad_extension name (toLower (trimmed name)) kBadExtensions
      | _ \<Rightarrow> name)"

text \<open>The case mapping of the ASCII letters, an instance of \<open>toLower\<close> for concrete inputs.\<close>

definition ascii_toLower :: "QString \<Rightarrow> QString" where
  "ascii_toLower s = map (\<lambda>c. if 0x41 \<le> c \<and> c \<le> 0x5A then c + 0x20 else c) s"

section \<open>Files, images and photos (export\_data\_types.cpp)\<close>

text \<open>
  \<open>Data::File\<close>, \<open>Data::Image\<close> and \<open>Data::Photo\<close> with the fields that the sources
  read and write, and their default values.  \<open>int\<close> fields are mathematical integers.
\<close>

datatype SkipReason = SkipNone | Unavailable | FileType | FileSize

record File =
  f_content :: QByteArray
  f_size :: int
  f_location :: FileLocation
  f_suggestedPath :: QString
  f_skipReason :: SkipReason
  f_relativePath :: QString

definition File_default :: File where
  "File_default = \<lparr> f_content = [], f_size = 0,
                     f_location = \<lparr> dcId = 0, data = InputFileLocation 0 0 0 \<rparr>,
                     f_suggestedPath = [], f_skipReason = SkipNone, f_relativePath = [] \<rparr>"

text \<open>
  Modelled from the spec: \<open>FileLocation::operator bool\<close> is declared in
  export\_data\_types.h, which is not among the sources.  A file ``has no valid remote
  location'' when its data centre is 0: \<open>ParseLocation\<close> stores 0 for
  \<open>fileLocationUnavailable\<close>, and \<open>loadFile\<close> expects \<open>dcId != 0\<close>.
\<close>

definition location_valid :: "FileLocation \<Rightarrow> bool" where
  "location_valid l = (dcId l \<noteq> 0)"

record Image =
  img_width :: int
  img_height :: int
  img_file :: File

record Photo =
  photo_id :: uint64
  photo_date :: int32
  photo_image :: Image

definition Image_default :: Image where
  "Image_default = \<lparr> img_width = 0, img_height = 0, img_file = File_default \<rparr>"

definition Photo_default :: Photo where
  "Photo_default = \<lparr> photo_id = 0, photo_date = 0, photo_image = Image_default \<rparr>"

datatype MTPFileLocation =
    MTPfileLocation int32 int64 int32 int64
  | MTPfileLocationUnavailable int64 int32 int64

datatype MTPPhotoSize =
    MTPphotoSizeEmpty
  | MTPphotoSize MTPFileLocation int32 int32 int32
  | MTPphotoCachedSize MTPFileLocation int32 int32 QByteArray

datatype MTPPhoto =
    MTPphotoEmpty int64
  | MTPphoto int64 int32 "MTPPhotoSize list"

text \<open>\<open>MTPfileLocation dc_id volume_id local_id secret\<close>.\<close>

fun ParseLocation :: "MTPFileLocation \<Rightarrow> FileLocation" where
  "ParseLocation (MTPfileLocation dc volume local secret) =
     \<lparr> dcId = dc, data = InputFileLocation volume local secret \<rparr>"
| "ParseLocation (MTPfileLocationUnavailable volume local secret) =
     \<lparr> dcId = 0, data = InputFileLocation volume local secret \<rparr>"

text \<open>
  One round of the loop of \<open>ParseMaxImage\<close>; the state is the result and \<open>maxArea\<close>.
  \<open>MTPphotoSize location w h size\<close>, \<open>MTPphotoCachedSize location w h bytes\<close>; the area
  is computed in 64 bits and a product of two 32-bit values fits.
\<close>

fun ParseMaxImage_step :: "Image \<times> int \<Rightarrow> MTPPhotoSize \<Rightarrow> Image \<times> int" where
  "ParseMaxImage_step (result, maxArea) MTPphotoSizeEmpty = (result, maxArea)"
| "ParseMaxImage_step (result, maxArea) (MTPphotoSize loc w h sz) =
     (let area = sint w * sint h in
      if area > maxArea
      then (result\<lparr> img_width := sint w, img_height := sint h,
                     img_file := (img_file result)\<lparr> f_location := ParseLocation loc,
                                                    f_content := [], f_size := sint sz \<rparr> \<rparr>, area)
      else (result, maxArea))"
| "ParseMaxImage_step (result, maxArea) (MTPphotoCachedSize loc w h bytes) =
     (let area = sint w * sint h in
      if area > maxArea
      then (result\<lparr> img_width := sint w, img_height := sint h,
                     img_file := (img_file result)\<lparr> f_location := ParseLocation loc,
                                                    f_content := bytes, f_size := int (length bytes) \<rparr> \<rparr>, area)
      else (result, maxArea))"

definition ParseMaxImage :: "MTPPhotoSize list \<Rightarrow> QString \<Rightarrow> Image" where
  "ParseMaxImage sizes suggestedPath =
     fst (foldl ParseMaxImage_step
            (Image_default\<lparr> img_file := File_default\<lparr> f_suggestedPath := suggestedPath \<rparr> \<rparr>, 0)
            sizes)"

fun ParsePhoto :: "MTPPhoto \<Rightarrow> QString \<Rightarrow> Photo" where
  "ParsePhoto (MTPphoto i date sizes) suggestedPath =
     Photo_default\<lparr> photo_id := i, photo_date := date,
                     photo_image := ParseMaxImage sizes suggestedPath \<rparr>"
| "ParsePhoto (MTPphotoEmpty i) suggestedPath = Photo_default\<lparr> photo_id := i \<rparr>"

text \<open>
  \<open>FormatDateTime\<close> reads the calendar fields of \<open>QDateTime::fromTime_t(date)\<close>, which
  depend on the time zone of the machine; the formatted text, with the separators
  \<open>'_'\<close> that \<open>PreparePhotoFileName\<close> passes, is a parameter \<open>formatDate\<close> of the model.
\<close>

definition PreparePhotoFileName :: "(int32 \<Rightarrow> QString) \<Rightarrow> int32 \<Rightarrow> QString" where
  "PreparePhotoFileName formatDate date = qstr ''Photo_'' @ formatDate date @ qstr ''.jpg''"

record UserpicsSlice =
  us_list :: "Photo list"

text \<open>The loop of \<open>ParseUserpicsSlice\<close> appends one parsed photo per wire photo.\<close>

definition userpic_suggestedPath :: "(int32 \<Rightarrow> QString) \<Rightarrow> MTPPhoto \<Rightarrow> QString" where
  "userpic_suggestedPath formatDate photo =
     qstr ''PersonalPhotos/'' @
     (case photo of
        MTPphoto i date sizes \<Rightarrow> PreparePhotoFileName formatDate date
      | MTPphotoEmpty i \<Rightarrow> qstr ''Photo_Empty.jpg'')"

definition ParseUserpicsSlice :: "(int32 \<Rightarrow> QString) \<Rightarrow> MTPPhoto list \<Rightarrow> UserpicsSlice" where
  "ParseUserpicsSlice formatDate wire =
     \<lparr> us_list = foldl (\<lambda>result photo.
                          result @ [ParsePhoto photo (userpic_suggestedPath formatDate photo)])
                       [] wire \<rparr>"

text \<open>
  \<open>ParseMessagesSlice\<close>: the loop appends one parsed message per wire message, then
  \<open>ranges::reverse\<close> turns the list around; the peers are parsed from the users and the
  chats.  \<open>ParseMessage\<close> and \<open>ParsePeersLists\<close> are parameters here: a message is parsed
  on its own, whatever the parser makes of it.
\<close>

definition ParseMessagesSlice ::
  "('wire \<Rightarrow> QString \<Rightarrow> 'message) \<Rightarrow> ('users \<Rightarrow> 'chats \<Rightarrow> 'peers) \<Rightarrow>
   'wire list \<Rightarrow> 'users \<Rightarrow> 'chats \<Rightarrow> QString \<Rightarrow> 'message list \<times> 'peers" where
  "ParseMessagesSlice ParseMessage ParsePeersLists wire users chats mediaFolder =
     (let result_list = foldl (\<lambda>result message. result @ [ParseMessage message mediaFolder]) [] wire
      in (rev result_list, ParsePeersLists users chats))"

section \<open>Settings, dialogs, messages (the data that ApiWrap reads)\<close>

text \<open>
  Modelled from the spec: \<open>Settings\<close> and \<open>MediaSettings\<close> are declared in
  export\_settings.h, which is not among the sources.  The ``bitmask of content types''
  and the ``media-type bitmask'' are flag sets over single-bit enumerators; a flag set is
  the set of the enumerators whose bit is on, so \<open>(types & bit) != 0\<close> and
  \<open>(types & type) == type\<close> are membership.  Only the enumerators that the sources name
  are listed.
\<close>

datatype SettingsType =
  Contacts | PersonalChats | BotChats | PrivateGroups | PublicGroups
  | PrivateChannels | PublicChannels

datatype MediaType =
  Type_Photo | Type_Video | Type_VoiceMessage | Type_VideoMessage | Type_Sticker
  | Type_GIF | Type_File

record MediaSettings =
  media_types :: "MediaType set"
  media_sizeLimit :: int

record Settings =
  st_path :: QString
  st_types :: "SettingsType set"
  st_fullChats :: "SettingsType set"
  st_media :: MediaSettings

datatype DialogType =
  Unknown | Personal | Bot | PrivateGroup | PublicGroup | PrivateChannel | PublicChannel

datatype MTPInputPeer =
  MTPinputPeerEmpty | MTPinputPeerUser int32 int64 | MTPinputPeerChat int32
  | MTPinputPeerChannel int32 int64

record DialogInfo =
  di_type :: DialogType
  di_name :: string
  di_input :: MTPInputPeer
  di_topMessageId :: int32
  di_topMessageDate :: int32
  di_relativePath :: QString

record DialogsInfo =
  ds_list :: "DialogInfo list"

text \<open>
  Of a \<open>Data::Message\<close> ApiWrap reads the id, the file that \<open>Message::file()\<close> refers to
  (the photo of a chat-photo action, the photo or document of the media, or an empty
  file), and, in \<open>processFileLoad\<close>, the flags of a document in the media.
\<close>

record Document =
  isSticker :: bool
  isVideoMessage :: bool
  isVoiceMessage :: bool
  isAnimated :: bool
  isVideoFile :: bool

record Message =
  msg_id :: int32
  msg_document :: "Document option"
  msg_file :: File

record MessagesSlice =
  ml_list :: "Message list"

section \<open>The state of ApiWrap (export\_api\_wrap.cpp)\<close>

definition kFileChunkSize :: int where
  "kFileChunkSize = 128 * 1024"

definition kFileRequestsCount :: nat where
  "kFileRequestsCount = 2"

definition kFileMaxSize :: int where
  "kFileMaxSize = 1500 * 1024 * 1024"

definition kLocationCacheSize :: int where
  "kLocationCacheSize = 100000"

record UserpicsProcess =
  up_slice :: "UserpicsSlice option"
  up_lastSlice :: bool
  up_fileIndex :: int

record Request =
  rq_offset :: int
  rq_bytes :: QByteArray

text \<open>
  The callback \<open>done\<close> of a file process is one of the two closures that the sources
  pass to \<open>processFileLoad\<close>, or empty as long as \<open>loadFile\<close> has not stored one.
\<close>

datatype DoneCallback = DoneEmpty | DoneUserpic | DoneMessageFile

record FileProcess =
  fp_file :: QString
  fp_relativePath :: QString
  fp_done :: DoneCallback
  fp_location :: FileLocation
  fp_offset :: int
  fp_size :: int
  fp_requests :: "Request list"

record Single =
  sg_info :: DialogInfo
  sg_offsetId :: int32
  sg_slice :: "MessagesSlice option"
  sg_lastSlice :: bool
  sg_fileIndex :: int

record DialogsProcess =
  dp_info :: DialogsInfo
  dp_offsetDate :: int32
  dp_offsetId :: int32
  dp_offsetPeer :: MTPInputPeer
  dp_single :: "Single option"
  dp_singleIndex :: int

datatype TakeoutFlag =
  f_contacts | f_files | f_file_max_size | f_message_users | f_message_chats
  | f_message_megagroups | f_message_channels

text \<open>The requests that ApiWrap hands to the transport, with the arguments that vary.\<close>

datatype MTPRequest =
    MTPaccount_InitTakeoutSession "TakeoutFlag set" int
  | MTPusers_GetFullUser
  | MTPphotos_GetUserPhotos int64
  | MTPcontacts_GetSaved
  | MTPaccount_GetAuthorizations
  | MTPmessages_GetDialogs int32 int32 MTPInputPeer
  | MTPmessages_Search MTPInputPeer int32
  | MTPmessages_GetHistory MTPInputPeer int32
  | MTPupload_GetFile FileLocation int

text \<open>The \<open>done\<close> handler attached to a request; a file part remembers its offset.\<close>

datatype Handler =
    H_Takeout | H_PersonalInfo | H_UserpicsFirst | H_UserpicsNext | H_Contacts | H_Sessions
  | H_Dialogs | H_Messages | H_FilePart int

text \<open>
  A response is given by what its handler reads: the variant, and the slice that the
  parser of export\_data\_types.cpp makes of the vectors in it.
\<close>

datatype MTPphotos_Photos =
    MTPphotos_photos UserpicsSlice
  | MTPphotos_photosSlice int UserpicsSlice

datatype MTPmessages_Dialogs =
    MTPmessages_dialogs DialogsInfo
  | MTPmessages_dialogsSlice bool DialogsInfo
  | MTPmessages_dialogsOther

datatype MTPmessages_Messages =
    MTPmessages_messages MessagesSlice
  | MTPmessages_messagesSlice MessagesSlice
  | MTPmessages_channelMessages MessagesSlice
  | MTPmessages_messagesNotModified

datatype MTPupload_File =
    MTPupload_file QByteArray
  | MTPupload_fileCdnRedirect

datatype Response =
    R_Takeout int64
  | R_UserFull bool
  | R_Photos MTPphotos_Photos
  | R_Contacts
  | R_Sessions
  | R_Dialogs MTPmessages_Dialogs
  | R_Messages MTPmessages_Messages
  | R_File MTPupload_File

datatype RPCError = RPCError int QString

text \<open>The callbacks of the caller that ApiWrap invokes, with what it passes to them.\<close>

datatype Callback =
    CB_exportStarted
  | CB_personalInfo
  | CB_userpicsStart int
  | CB_userpicsSlice UserpicsSlice
  | CB_userpicsFinish
  | CB_contacts
  | CB_sessions
  | CB_dialogsStart DialogsInfo
  | CB_dialogStartOne DialogInfo
  | CB_dialogSliceOne MessagesSlice
  | CB_dialogFinishOne
  | CB_dialogsFinish

text \<open>
  The members of \<open>ApiWrap\<close>, and what it does to the outside: the requests sent and the
  handlers waiting for a response, the errors fired on the error stream, the callbacks
  invoked, the bytes of the files on disk.

  Modelled from the spec: \<open>Output::File\<close> (export\_output\_file.h) is not among the
  sources.  A file object is its path; \<open>writeBlock\<close> appends the block to the file on disk
  and reports success, or reports an error and leaves the file as it is (``cannot
  open/write destination file''), here for the paths in \<open>unwritable\<close>.
  \<open>Output::File::PrepareRelativePath\<close>, which picks the name under which a file is stored
  in the export folder, is the parameter \<open>prepareRelativePath\<close>.
\<close>

record ApiWrap =
  fileCache :: LoadedFileCache
  settings :: "Settings option"
  takeoutId :: "int64 option"
  userpicsProcess :: "UserpicsProcess option"
  fileProcess :: "FileProcess option"
  dialogsProcess :: "DialogsProcess option"
  sent :: "MTPRequest list"
  pending :: "Handler list"
  errors :: "RPCError list"
  called :: "Callback list"
  disk :: "QString \<Rightarrow> QByteArray"
  unwritable :: "QString set"
  prepareRelativePath :: "QString \<Rightarrow> QString \<Rightarrow> QString"

datatype WriteResult = Success | Error

definition writeBlock :: "ApiWrap \<Rightarrow> QString \<Rightarrow> QByteArray \<Rightarrow> WriteResult \<times> ApiWrap" where
  "writeBlock s file block =
     (if file \<in> unwritable s then (Error, s)
      else (Success, s\<lparr> disk := (disk s)(file := disk s file @ block) \<rparr>))"

definition and_then :: "fatal + 'a \<Rightarrow> ('a \<Rightarrow> fatal + 'b) \<Rightarrow> fatal + 'b" where
  "and_then r f = (case r of Inl e \<Rightarrow> Inl e | Inr a \<Rightarrow> f a)"

definition error_rpc :: "ApiWrap \<Rightarrow> RPCError \<Rightarrow> ApiWrap" where
  "error_rpc s e = s\<lparr> errors := errors s @ [e] \<rparr>"

definition error_text :: "ApiWrap \<Rightarrow> QString \<Rightarrow> ApiWrap" where
  "error_text s text = error_rpc s (RPCError 0 (qstr ''API_ERROR: '' @ text))"

definition call :: "ApiWrap \<Rightarrow> Callback \<Rightarrow> ApiWrap" where
  "call s cb = s\<lparr> called := called s @ [cb] \<rparr>"

definition send :: "ApiWrap \<Rightarrow> MTPRequest \<Rightarrow> Handler \<Rightarrow> ApiWrap" where
  "send s request handler = s\<lparr> sent := sent s @ [request], pending := pending s @ [handler] \<rparr>"

definition mainRequest :: "ApiWrap \<Rightarrow> MTPRequest \<Rightarrow> Handler \<Rightarrow> fatal + ApiWrap" where
  "mainRequest s request handler =
     (if takeoutId s = None then Inl ExpectsFailed else Inr (send s request handler))"

definition fileRequest :: "ApiWrap \<Rightarrow> FileLocation \<Rightarrow> int \<Rightarrow> fatal + ApiWrap" where
  "fileRequest s location offset =
     (if dcId location = 0 then Inl ExpectsFailed
      else if takeoutId s = None then Inl ExpectsFailed
      else Inr (send s (MTPupload_GetFile location offset) (H_FilePart offset)))"

definition ApiWrap_new :: "QString set \<Rightarrow> (QString \<Rightarrow> QString \<Rightarrow> QString) \<Rightarrow> ApiWrap" where
  "ApiWrap_new ro prepare =
     \<lparr> fileCache = \<lparr> cache_limit = nat kLocationCacheSize, cache_map = Map.empty, cache_list = [] \<rparr>,
       settings = None, takeoutId = None, userpicsProcess = None, fileProcess = None,
       dialogsProcess = None, sent = [], pending = [], errors = [], called = [],
       disk = (\<lambda>file. []), unwritable = ro, prepareRelativePath = prepare \<rparr>"

subsection \<open>Starting the export, the simple requests\<close>

definition takeoutFlags :: "Settings \<Rightarrow> TakeoutFlag set" where
  "takeoutFlags st =
     (let sizeLimit = media_sizeLimit (st_media st);
          hasFiles = (media_types (st_media st) \<noteq> {} \<and> sizeLimit > 0)
      in (if Contacts \<in> st_types st then {f_contacts} else {})
       \<union> (if hasFiles then {f_files} else {})
       \<union> (if sizeLimit < kFileMaxSize then {f_file_max_size} else {})
       \<union> (if st_types st \<inter> {PersonalChats, BotChats} \<noteq> {} then {f_message_users} else {})
       \<union> (if PrivateGroups \<in> st_types st then {f_message_chats, f_message_megagroups} else {})
       \<union> (if PublicGroups \<in> st_types st then {f_message_megagroups} else {})
       \<union> (if st_types st \<inter> {PrivateChannels, PublicChannels} \<noteq> {} then {f_message_channels} else {}))"

definition startMainSession :: "ApiWrap \<Rightarrow> fatal + ApiWrap" where
  "startMainSession s =
     (case settings s of
        None \<Rightarrow> Inl NullDereference
      | Some st \<Rightarrow>
          Inr (send s (MTPaccount_InitTakeoutSession (takeoutFlags st) (media_sizeLimit (st_media st)))
                 H_Takeout))"

definition startExport :: "ApiWrap \<Rightarrow> Settings \<Rightarrow> fatal + ApiWrap" where
  "startExport s st =
     (if settings s \<noteq> None then Inl ExpectsFailed
      else startMainSession (s\<lparr> settings := Some st \<rparr>))"

definition requestPersonalInfo :: "ApiWrap \<Rightarrow> fatal + ApiWrap" where
  "requestPersonalInfo s = mainRequest s MTPusers_GetFullUser H_PersonalInfo"

definition requestContacts :: "ApiWrap \<Rightarrow> fatal + ApiWrap" where
  "requestContacts s = mainRequest s MTPcontacts_GetSaved H_Contacts"

definition requestSessions :: "ApiWrap \<Rightarrow> fatal + ApiWrap" where
  "requestSessions s = mainRequest s MTPaccount_GetAuthorizations H_Sessions"

subsection \<open>Loading one file\<close>

definition prepareFileProcess :: "ApiWrap \<Rightarrow> File \<Rightarrow> fatal + FileProcess" where
  "prepareFileProcess s file =
     (case settings s of
        None \<Rightarrow> Inl ExpectsFailed
      | Some st \<Rightarrow>
          (let relativePath = prepareRelativePath s (st_path st) (f_suggestedPath file)
           in Inr \<lparr> fp_file = st_path st @ relativePath, fp_relativePath = relativePath,
                    fp_done = DoneEmpty, fp_location = f_location file, fp_offset = 0,
                    fp_size = f_size file, fp_requests = [] \<rparr>))"

text \<open>
  The sum of two \<open>int\<close>s as the machine computes it: past \<open>2^31 - 1\<close> it wraps around
  on 32 bits.
\<close>

definition int_add :: "int \<Rightarrow> int \<Rightarrow> int" where
  "int_add a b = (a + b + 2 ^ 31) mod 2 ^ 32 - 2 ^ 31"

text \<open>
  \<open>loadFilePart\<close> sends at most one request: the code that would chain a second one is
  commented out in the source.  The offset of the next request is the \<open>int\<close> sum
  \<open>offset += kFileChunkSize\<close>.
\<close>

definition loadFilePart :: "ApiWrap \<Rightarrow> fatal + ApiWrap" where
  "loadFilePart s =
     (case fileProcess s of
        None \<Rightarrow> Inr s
      | Some p \<Rightarrow>
          if length (fp_requests p) \<ge> kFileRequestsCount
             \<or> (fp_size p > 0 \<and> fp_offset p \<ge> fp_size p)
          then Inr s
          else
            (let offset = fp_offset p;
                 p1 = p\<lparr> fp_requests := fp_requests p @ [\<lparr> rq_offset = offset, rq_bytes = [] \<rparr>] \<rparr>
             in and_then (fileRequest (s\<lparr> fileProcess := Some p1 \<rparr>) (fp_location p1) (fp_offset p1))
                  (\<lambda>s1. Inr (s1\<lparr> fileProcess := Some (p1\<lparr> fp_offset := int_add (fp_offset p1) kFileChunkSize \<rparr>) \<rparr>))))"

definition loadFile :: "ApiWrap \<Rightarrow> File \<Rightarrow> DoneCallback \<Rightarrow> fatal + ApiWrap" where
  "loadFile s file done =
     (if fileProcess s \<noteq> None then Inl ExpectsFailed
      else if dcId (f_location file) = 0 then Inl ExpectsFailed
      else and_then (prepareFileProcess s file)
             (\<lambda>p. loadFilePart (s\<lparr> fileProcess := Some (p\<lparr> fp_done := done \<rparr>) \<rparr>)))"

text \<open>
  \<open>writePreloadedFile\<close> prepares a process of its own for the file, but writes the
  content through \<open>_fileProcess->file\<close>, the file of the transfer that is active (a null
  pointer when none is).
\<close>

definition writePreloadedFile :: "ApiWrap \<Rightarrow> File \<Rightarrow> fatal + (bool \<times> File \<times> ApiWrap)" where
  "writePreloadedFile s file =
     (if settings s = None then Inl ExpectsFailed
      else case cache_find (fileCache s) (f_location file) of
        Some path \<Rightarrow> Inr (True, file\<lparr> f_relativePath := path \<rparr>, s)
      | None \<Rightarrow>
          if f_content file \<noteq> [] then
            and_then (prepareFileProcess s file)
              (\<lambda>process.
                 case fileProcess s of
                   None \<Rightarrow> Inl NullDereference
                 | Some active \<Rightarrow>
                     (case writeBlock s (fp_file active) (f_content file) of
                        (Success, s1) \<Rightarrow>
                          (let file1 = file\<lparr> f_relativePath := fp_relativePath process \<rparr>
                           in Inr (True, file1,
                                   s1\<lparr> fileCache := cache_save (fileCache s1) (f_location file1)
                                                         (f_relativePath file1) \<rparr>))
                      | (Error, s1) \<Rightarrow>
                          Inr (False, file,
                               error_text s1 (qstr ''Could not write '' @ [0x27]
                                              @ fp_relativePath process @ [0x27] @ qstr ''.''))))
          else Inr (False, file, s))"

definition mediaType :: "Message option \<Rightarrow> MediaType" where
  "mediaType message =
     (case message of
        None \<Rightarrow> Type_Photo
      | Some m \<Rightarrow>
          (case msg_document m of
             Some d \<Rightarrow>
               if isSticker d then Type_Sticker
               else if isVideoMessage d then Type_VideoMessage
               else if isVoiceMessage d then Type_VoiceMessage
               else if isAnimated d then Type_GIF
               else if isVideoFile d then Type_Video
               else Type_File
           | None \<Rightarrow> Type_Photo))"

text \<open>
  \<open>processFileLoad\<close> gets the file by reference; the model returns the file as the call
  leaves it, together with the result and the state.
\<close>

definition processFileLoad ::
  "ApiWrap \<Rightarrow> File \<Rightarrow> DoneCallback \<Rightarrow> Message option \<Rightarrow> fatal + (bool \<times> File \<times> ApiWrap)" where
  "processFileLoad s file done message =
     (if f_relativePath file \<noteq> [] then Inr (True, file, s)
      else if \<not> location_valid (f_location file)
      then Inr (True, file\<lparr> f_skipReason := Unavailable \<rparr>, s)
      else and_then (writePreloadedFile s file)
        (\<lambda>(written, file1, s1).
           if written then Inr (True, file1, s1)
           else case settings s1 of
             None \<Rightarrow> Inl NullDereference
           | Some st \<Rightarrow>
               if mediaType message \<notin> media_types (st_media st)
               then Inr (True, file1\<lparr> f_skipReason := FileType \<rparr>, s1)
               else if f_size file1 \<ge> media_sizeLimit (st_media st)
               then Inr (True, file1\<lparr> f_skipReason := FileSize \<rparr>, s1)
               else and_then (loadFile s1 file1 done) (\<lambda>s2. Inr (False, file1, s2))))"

subsection \<open>The userpics process\<close>

definition finishUserpics :: "ApiWrap \<Rightarrow> fatal + ApiWrap" where
  "finishUserpics s =
     (if userpicsProcess s = None then Inl ExpectsFailed
      else Inr (call (s\<lparr> userpicsProcess := None \<rparr>) CB_userpicsFinish))"

definition set_userpic_file :: "UserpicsProcess \<Rightarrow> nat \<Rightarrow> File \<Rightarrow> UserpicsProcess" where
  "set_userpic_file up index file =
     (case up_slice up of
        None \<Rightarrow> up
      | Some sl \<Rightarrow>
          up\<lparr> up_slice := Some (sl\<lparr> us_list := (us_list sl)
                  [index := (us_list sl ! index)
                     \<lparr> photo_image := (photo_image (us_list sl ! index))\<lparr> img_file := file \<rparr> \<rparr>] \<rparr>) \<rparr>)"

text \<open>
  The \<open>while (true)\<close> loop of \<open>loadNextUserpic\<close>.  \<open>index >= list.size()\<close> compares with an
  unsigned size, so a negative index leaves the loop as well.  The result says whether
  the loop was left by \<open>break\<close> (all files ready) or by \<open>return\<close> (a transfer started).
\<close>

function loadNextUserpic_loop :: "ApiWrap \<Rightarrow> fatal + (bool \<times> ApiWrap)" where
  "loadNextUserpic_loop s =
     (case userpicsProcess s of
        None \<Rightarrow> Inl ExpectsFailed
      | Some up \<Rightarrow>
          (case up_slice up of
             None \<Rightarrow> Inl ExpectsFailed
           | Some sl \<Rightarrow>
               (let index = up_fileIndex up + 1;
                    up1 = up\<lparr> up_fileIndex := index \<rparr>;
                    s1 = s\<lparr> userpicsProcess := Some up1 \<rparr>
                in if index < 0 \<or> nat index \<ge> length (us_list sl) then Inr (True, s1)
                   else
                     (case processFileLoad s1 (img_file (photo_image (us_list sl ! nat index)))
                             DoneUserpic None of
                        Inl e \<Rightarrow> Inl e
                      | Inr (ready, file, s2) \<Rightarrow>
                          (let s3 = s2\<lparr> userpicsProcess :=
                                          Some (set_userpic_file up1 (nat index) file) \<rparr>
                           in if \<not> ready then Inr (False, s3)
                              else loadNextUserpic_loop s3)))))"
  by pat_completeness auto
termination
proof (relation "measure (\<lambda>s. case userpicsProcess s of
                                  None \<Rightarrow> 0
                                | Some up \<Rightarrow> (case up_slice up of
                                     None \<Rightarrow> 0
                                   | Some sl \<Rightarrow> length (us_list sl) - nat (up_fileIndex up + 1)))")
  show "wf (measure (\<lambda>s. case userpicsProcess s of
                                  None \<Rightarrow> 0
                                | Some up \<Rightarrow> (case up_slice up of
                                     None \<Rightarrow> 0
                                   | Some sl \<Rightarrow> length (us_list sl) - nat (up_fileIndex up + 1))))"
    by simp
qed (auto simp: set_userpic_file_def)

declare loadNextUserpic_loop.simps [simp del]

definition loadNextUserpic :: "ApiWrap \<Rightarrow> fatal + ApiWrap" where
  "loadNextUserpic s =
     and_then (loadNextUserpic_loop s)
       (\<lambda>(ready, s1).
          if \<not> ready then Inr s1
          else case userpicsProcess s1 of
            None \<Rightarrow> Inl NullDereference
          | Some up \<Rightarrow>
              (case up_slice up of
                 None \<Rightarrow> Inl NullDereference
               | Some sl \<Rightarrow>
                   (let lastUserpicId = (if us_list sl = [] then None
                                         else Some (photo_id (last (us_list sl))));
                        s2 = call (s1\<lparr> userpicsProcess := Some (up\<lparr> up_slice := None \<rparr>) \<rparr>)
                               (CB_userpicsSlice sl)
                    in if up_lastSlice up then finishUserpics s2
                       else case lastUserpicId of
                         None \<Rightarrow> Inl AssertFailed
                       | Some i \<Rightarrow> mainRequest s2 (MTPphotos_GetUserPhotos i) H_UserpicsNext)))"

definition loadUserpicDone :: "ApiWrap \<Rightarrow> QString \<Rightarrow> fatal + ApiWrap" where
  "loadUserpicDone s relativePath =
     (case userpicsProcess s of
        None \<Rightarrow> Inl ExpectsFailed
      | Some up \<Rightarrow>
          (case up_slice up of
             None \<Rightarrow> Inl ExpectsFailed
           | Some sl \<Rightarrow>
               if \<not> (up_fileIndex up \<ge> 0 \<and> up_fileIndex up < int (length (us_list sl)))
               then Inl ExpectsFailed
               else
                 (let index = nat (up_fileIndex up);
                      file = img_file (photo_image (us_list sl ! index))
                  in loadNextUserpic
                       (s\<lparr> userpicsProcess :=
                             Some (set_userpic_file up index
                                     (file\<lparr> f_relativePath := relativePath \<rparr>)) \<rparr>))))"

definition loadUserpicsFiles :: "ApiWrap \<Rightarrow> UserpicsSlice \<Rightarrow> fatal + ApiWrap" where
  "loadUserpicsFiles s parsed =
     (case userpicsProcess s of
        None \<Rightarrow> Inl ExpectsFailed
      | Some up \<Rightarrow>
          if up_slice up \<noteq> None then Inl ExpectsFailed
          else
            (let up1 = (if us_list parsed = [] then up\<lparr> up_lastSlice := True \<rparr> else up)
             in loadNextUserpic
                  (s\<lparr> userpicsProcess :=
                        Some (up1\<lparr> up_slice := Some parsed, up_fileIndex := - 1 \<rparr>) \<rparr>)))"

definition handleUserpicsSlice :: "ApiWrap \<Rightarrow> MTPphotos_Photos \<Rightarrow> fatal + ApiWrap" where
  "handleUserpicsSlice s result =
     (case userpicsProcess s of
        None \<Rightarrow> Inl ExpectsFailed
      | Some up \<Rightarrow>
          (case result of
             MTPphotos_photos parsed \<Rightarrow>
               loadUserpicsFiles (s\<lparr> userpicsProcess := Some (up\<lparr> up_lastSlice := True \<rparr>) \<rparr>) parsed
           | MTPphotos_photosSlice count parsed \<Rightarrow> loadUserpicsFiles s parsed))"

definition requestUserpics :: "ApiWrap \<Rightarrow> fatal + ApiWrap" where
  "requestUserpics s =
     (if userpicsProcess s \<noteq> None then Inl ExpectsFailed
      else mainRequest
             (s\<lparr> userpicsProcess :=
                   Some \<lparr> up_slice = None, up_lastSlice = False, up_fileIndex = - 1 \<rparr> \<rparr>)
             (MTPphotos_GetUserPhotos 0) H_UserpicsFirst)"

definition userpicsFirstDone :: "ApiWrap \<Rightarrow> MTPphotos_Photos \<Rightarrow> fatal + ApiWrap" where
  "userpicsFirstDone s result =
     (if userpicsProcess s = None then Inl ExpectsFailed
      else
        (let count = (case result of
                        MTPphotos_photos parsed \<Rightarrow> int (length (us_list parsed))
                      | MTPphotos_photosSlice count parsed \<Rightarrow> count)
         in handleUserpicsSlice (call s (CB_userpicsStart count)) result))"

subsection \<open>The dialogs process: one dialog after the other\<close>

definition settingOf :: "DialogType \<Rightarrow> SettingsType option" where
  "settingOf t =
     (case t of
        Personal \<Rightarrow> Some PersonalChats
      | Bot \<Rightarrow> Some BotChats
      | PrivateGroup \<Rightarrow> Some PrivateGroups
      | PublicGroup \<Rightarrow> Some PublicGroups
      | PrivateChannel \<Rightarrow> Some PrivateChannels
      | PublicChannel \<Rightarrow> Some PublicChannels
      | Unknown \<Rightarrow> None)"

definition onlyMyMessages :: "ApiWrap \<Rightarrow> fatal + bool" where
  "onlyMyMessages s =
     (case dialogsProcess s of
        None \<Rightarrow> Inl ExpectsFailed
      | Some dp \<Rightarrow>
          (case dp_single dp of
             None \<Rightarrow> Inl ExpectsFailed
           | Some process \<Rightarrow>
               (case settingOf (di_type (sg_info process)) of
                  None \<Rightarrow> Inl UnexpectedFailed
                | Some setting \<Rightarrow>
                    (case settings s of
                       None \<Rightarrow> Inl NullDereference
                     | Some st \<Rightarrow> Inr (setting \<notin> st_fullChats st)))))"

definition requestMessagesSlice :: "ApiWrap \<Rightarrow> fatal + ApiWrap" where
  "requestMessagesSlice s =
     (case dialogsProcess s of
        None \<Rightarrow> Inl ExpectsFailed
      | Some dp \<Rightarrow>
          (case dp_single dp of
             None \<Rightarrow> Inl ExpectsFailed
           | Some process \<Rightarrow>
               and_then (onlyMyMessages s)
                 (\<lambda>only.
                    if only
                    then mainRequest s
                           (MTPmessages_Search (di_input (sg_info process)) (sg_offsetId process))
                           H_Messages
                    else mainRequest s
                           (MTPmessages_GetHistory (di_input (sg_info process)) (sg_offsetId process))
                           H_Messages)))"

definition finishDialogs :: "ApiWrap \<Rightarrow> fatal + ApiWrap" where
  "finishDialogs s =
     (case dialogsProcess s of
        None \<Rightarrow> Inl ExpectsFailed
      | Some dp \<Rightarrow>
          if dp_single dp \<noteq> None then Inl ExpectsFailed
          else Inr (call (s\<lparr> dialogsProcess := None \<rparr>) CB_dialogsFinish))"

text \<open>
  \<open>requestNextDialog\<close> goes on while \<open>index < 11\<close> (the comparison with the size of the
  list is commented out in the source); \<open>list[index]\<close> past the end of the vector is a
  fatal error of the model.
\<close>

definition requestNextDialog :: "ApiWrap \<Rightarrow> fatal + ApiWrap" where
  "requestNextDialog s =
     (case dialogsProcess s of
        None \<Rightarrow> Inl ExpectsFailed
      | Some dp \<Rightarrow>
          if dp_single dp \<noteq> None then Inl ExpectsFailed
          else
            (let index = dp_singleIndex dp + 1;
                 dp1 = dp\<lparr> dp_singleIndex := index \<rparr>
             in if index < 11 then
                  (if index < 0 \<or> nat index \<ge> length (ds_list (dp_info dp1)) then Inl OutOfRange
                   else
                     (let one = ds_list (dp_info dp1) ! nat index;
                          single = \<lparr> sg_info = one, sg_offsetId = 1, sg_slice = None,
                                     sg_lastSlice = False, sg_fileIndex = - 1 \<rparr>
                      in requestMessagesSlice
                           (call (s\<lparr> dialogsProcess := Some (dp1\<lparr> dp_single := Some single \<rparr>) \<rparr>)
                              (CB_dialogStartOne one))))
                else finishDialogs (s\<lparr> dialogsProcess := Some dp1 \<rparr>)))"

definition finishMessages :: "ApiWrap \<Rightarrow> fatal + ApiWrap" where
  "finishMessages s =
     (case dialogsProcess s of
        None \<Rightarrow> Inl ExpectsFailed
      | Some dp \<Rightarrow>
          (case dp_single dp of
             None \<Rightarrow> Inl ExpectsFailed
           | Some process \<Rightarrow>
               if sg_slice process \<noteq> None then Inl ExpectsFailed
               else requestNextDialog
                      (call (s\<lparr> dialogsProcess := Some (dp\<lparr> dp_single := None \<rparr>) \<rparr>)
                         CB_dialogFinishOne)))"

definition set_message_file :: "Single \<Rightarrow> nat \<Rightarrow> File \<Rightarrow> Single" where
  "set_message_file process index file =
     (case sg_slice process of
        None \<Rightarrow> process
      | Some sl \<Rightarrow>
          process\<lparr> sg_slice := Some (sl\<lparr> ml_list := (ml_list sl)
                     [index := (ml_list sl ! index)\<lparr> msg_file := file \<rparr>] \<rparr>) \<rparr>)"

text \<open>The \<open>while (true)\<close> loop of \<open>loadNextMessageFile\<close>, as for the userpics.\<close>

function loadNextMessageFile_loop :: "ApiWrap \<Rightarrow> fatal + (bool \<times> ApiWrap)" where
  "loadNextMessageFile_loop s =
     (case dialogsProcess s of
        None \<Rightarrow> Inl ExpectsFailed
      | Some dp \<Rightarrow>
          (case dp_single dp of
             None \<Rightarrow> Inl ExpectsFailed
           | Some process \<Rightarrow>
               (case sg_slice process of
                  None \<Rightarrow> Inl ExpectsFailed
                | Some sl \<Rightarrow>
                    (let index = sg_fileIndex process + 1;
                         process1 = process\<lparr> sg_fileIndex := index \<rparr>;
                         s1 = s\<lparr> dialogsProcess := Some (dp\<lparr> dp_single := Some process1 \<rparr>) \<rparr>
                     in if index < 0 \<or> nat index \<ge> length (ml_list sl) then Inr (True, s1)
                        else
                          (case processFileLoad s1 (msg_file (ml_list sl ! nat index))
                                  DoneMessageFile None of
                             Inl e \<Rightarrow> Inl e
                           | Inr (ready, file, s2) \<Rightarrow>
                               (let s3 = s2\<lparr> dialogsProcess :=
                                               Some (dp\<lparr> dp_single :=
                                                 Some (set_message_file process1 (nat index) file) \<rparr>) \<rparr>
                                in if \<not> ready then Inr (False, s3)
                                   else loadNextMessageFile_loop s3))))))"
  by pat_completeness auto
termination
proof (relation "measure (\<lambda>s. case dialogsProcess s of
                                  None \<Rightarrow> 0
                                | Some dp \<Rightarrow> (case dp_single dp of
                                     None \<Rightarrow> 0
                                   | Some process \<Rightarrow> (case sg_slice process of
                                        None \<Rightarrow> 0
                                      | Some sl \<Rightarrow>
                                          length (ml_list sl) - nat (sg_fileIndex process + 1))))")
  show "wf (measure (\<lambda>s. case dialogsProcess s of
                                  None \<Rightarrow> 0
                                | Some dp \<Rightarrow> (case dp_single dp of
                                     None \<Rightarrow> 0
                                   | Some process \<Rightarrow> (case sg_slice process of
                                        None \<Rightarrow> 0
                                      | Some sl \<Rightarrow>
                                          length (ml_list sl) - nat (sg_fileIndex process + 1)))))"
    by simp
qed (auto simp: set_message_file_def)

declare loadNextMessageFile_loop.simps [simp del]

definition loadNextMessageFile :: "ApiWrap \<Rightarrow> fatal + ApiWrap" where
  "loadNextMessageFile s =
     and_then (loadNextMessageFile_loop s)
       (\<lambda>(ready, s1).
          if \<not> ready then Inr s1
          else case dialogsProcess s1 of
            None \<Rightarrow> Inl NullDereference
          | Some dp \<Rightarrow>
              (case dp_single dp of
                 None \<Rightarrow> Inl NullDereference
               | Some process \<Rightarrow>
                   (case sg_slice process of
                      None \<Rightarrow> Inl NullDereference
                    | Some sl \<Rightarrow>
                        (let process1 = (if ml_list sl \<noteq> []
                                         then process\<lparr> sg_offsetId := msg_id (last (ml_list sl)) + 1 \<rparr>
                                         else process);
                             process2 = process1\<lparr> sg_slice := None \<rparr>;
                             s2 = call (s1\<lparr> dialogsProcess := Some (dp\<lparr> dp_single := Some process2 \<rparr>) \<rparr>)
                                    (CB_dialogSliceOne sl)
                         in if sg_lastSlice process2 then finishMessages s2
                            else requestMessagesSlice s2))))"

definition loadMessageFileDone :: "ApiWrap \<Rightarrow> QString \<Rightarrow> fatal + ApiWrap" where
  "loadMessageFileDone s relativePath =
     (case dialogsProcess s of
        None \<Rightarrow> Inl ExpectsFailed
      | Some dp \<Rightarrow>
          (case dp_single dp of
             None \<Rightarrow> Inl ExpectsFailed
           | Some process \<Rightarrow>
               (case sg_slice process of
                  None \<Rightarrow> Inl ExpectsFailed
                | Some sl \<Rightarrow>
                    if \<not> (sg_fileIndex process \<ge> 0
                           \<and> sg_fileIndex process < int (length (ml_list sl)))
                    then Inl ExpectsFailed
                    else
                      (let index = nat (sg_fileIndex process);
                           file = msg_file (ml_list sl ! index)
                       in loadNextMessageFile
                            (s\<lparr> dialogsProcess :=
                                  Some (dp\<lparr> dp_single :=
                                    Some (set_message_file process index
                                            (file\<lparr> f_relativePath := relativePath \<rparr>)) \<rparr>) \<rparr>)))))"

definition loadMessagesFiles :: "ApiWrap \<Rightarrow> MessagesSlice \<Rightarrow> fatal + ApiWrap" where
  "loadMessagesFiles s parsed =
     (case dialogsProcess s of
        None \<Rightarrow> Inl ExpectsFailed
      | Some dp \<Rightarrow>
          (case dp_single dp of
             None \<Rightarrow> Inl ExpectsFailed
           | Some process \<Rightarrow>
               if sg_slice process \<noteq> None then Inl ExpectsFailed
               else
                 (let process1 = (if ml_list parsed = [] then process\<lparr> sg_lastSlice := True \<rparr>
                                  else process)
                  in loadNextMessageFile
                       (s\<lparr> dialogsProcess :=
                             Some (dp\<lparr> dp_single :=
                               Some (process1\<lparr> sg_slice := Some parsed, sg_fileIndex := - 1 \<rparr>) \<rparr>) \<rparr>))))"

definition messagesDone :: "ApiWrap \<Rightarrow> MTPmessages_Messages \<Rightarrow> fatal + ApiWrap" where
  "messagesDone s result =
     (case dialogsProcess s of
        None \<Rightarrow> Inl ExpectsFailed
      | Some dp \<Rightarrow>
          (case dp_single dp of
             None \<Rightarrow> Inl ExpectsFailed
           | Some process \<Rightarrow>
               (case result of
                  MTPmessages_messagesNotModified \<Rightarrow>
                    Inr (error_text s (qstr ''Unexpected messagesNotModified received.''))
                | MTPmessages_messages parsed \<Rightarrow>
                    loadMessagesFiles
                      (s\<lparr> dialogsProcess :=
                            Some (dp\<lparr> dp_single := Some (process\<lparr> sg_lastSlice := True \<rparr>) \<rparr>) \<rparr>)
                      parsed
                | MTPmessages_messagesSlice parsed \<Rightarrow> loadMessagesFiles s parsed
                | MTPmessages_channelMessages parsed \<Rightarrow> loadMessagesFiles s parsed)))"

subsection \<open>The dialogs process: collecting the list of dialogs\<close>

text \<open>The loop of \<open>fillDialogsPaths\<close> over the list, \<open>index\<close> counting from 0.\<close>

fun fillDialogsPaths_loop :: "int \<Rightarrow> int \<Rightarrow> DialogInfo list \<Rightarrow> DialogInfo list" where
  "fillDialogsPaths_loop digits index [] = []"
| "fillDialogsPaths_loop digits index (dialog # rest) =
     (let index1 = index + 1;
          number = NumberToString index1 digits CHR ''0''
      in dialog\<lparr> di_relativePath := qstr (''Chats/chat_'' @ number @ ''/'') \<rparr>
         # fillDialogsPaths_loop digits index1 rest)"

definition fillDialogsPaths_list :: "DialogInfo list \<Rightarrow> DialogInfo list" where
  "fillDialogsPaths_list list =
     (let digits = int (length (NumberToString (size_minus_one (length list)) 0 CHR ''0''))
      in fillDialogsPaths_loop digits 0 list)"

definition fillDialogsPaths :: "ApiWrap \<Rightarrow> fatal + ApiWrap" where
  "fillDialogsPaths s =
     (case dialogsProcess s of
        None \<Rightarrow> Inl ExpectsFailed
      | Some dp \<Rightarrow>
          Inr (s\<lparr> dialogsProcess :=
                    Some (dp\<lparr> dp_info := (dp_info dp)
                            \<lparr> ds_list := fillDialogsPaths_list (ds_list (dp_info dp)) \<rparr> \<rparr>) \<rparr>))"

definition finishDialogsList :: "ApiWrap \<Rightarrow> fatal + ApiWrap" where
  "finishDialogsList s =
     (case dialogsProcess s of
        None \<Rightarrow> Inl ExpectsFailed
      | Some dp \<Rightarrow>
          and_then (fillDialogsPaths
                      (s\<lparr> dialogsProcess :=
                            Some (dp\<lparr> dp_info := (dp_info dp)
                                    \<lparr> ds_list := rev (ds_list (dp_info dp)) \<rparr> \<rparr>) \<rparr>))
            (\<lambda>s1. case dialogsProcess s1 of
                     None \<Rightarrow> Inl NullDereference
                   | Some dp1 \<Rightarrow> requestNextDialog (call s1 (CB_dialogsStart (dp_info dp1)))))"

definition appendDialogsSlice :: "ApiWrap \<Rightarrow> DialogsInfo \<Rightarrow> fatal + ApiWrap" where
  "appendDialogsSlice s info =
     (case dialogsProcess s of
        None \<Rightarrow> Inl ExpectsFailed
      | Some dp \<Rightarrow>
          (case settings s of
             None \<Rightarrow> Inl ExpectsFailed
           | Some st \<Rightarrow>
               (let types = st_types st \<union> st_fullChats st;
                    filtered = filter (\<lambda>info. case settingOf (di_type info) of
                                                 None \<Rightarrow> False
                                               | Some flag \<Rightarrow> flag \<in> types)
                                 (ds_list info)
                in Inr (s\<lparr> dialogsProcess :=
                             Some (dp\<lparr> dp_info := (dp_info dp)
                                     \<lparr> ds_list := ds_list (dp_info dp) @ filtered \<rparr> \<rparr>) \<rparr>))))"

definition requestDialogsSlice :: "ApiWrap \<Rightarrow> fatal + ApiWrap" where
  "requestDialogsSlice s =
     (case dialogsProcess s of
        None \<Rightarrow> Inl ExpectsFailed
      | Some dp \<Rightarrow>
          mainRequest s (MTPmessages_GetDialogs (dp_offsetDate dp) (dp_offsetId dp) (dp_offsetPeer dp))
            H_Dialogs)"

definition requestDialogs :: "ApiWrap \<Rightarrow> fatal + ApiWrap" where
  "requestDialogs s =
     (if dialogsProcess s \<noteq> None then Inl ExpectsFailed
      else requestDialogsSlice
             (s\<lparr> dialogsProcess :=
                   Some \<lparr> dp_info = \<lparr> ds_list = [] \<rparr>, dp_offsetDate = 0, dp_offsetId = 0,
                          dp_offsetPeer = MTPinputPeerEmpty, dp_single = None,
                          dp_singleIndex = - 1 \<rparr> \<rparr>))"

definition dialogsDone :: "ApiWrap \<Rightarrow> MTPmessages_Dialogs \<Rightarrow> fatal + ApiWrap" where
  "dialogsDone s result =
     (case result of
        MTPmessages_dialogsOther \<Rightarrow> Inl UnexpectedFailed
      | MTPmessages_dialogs info \<Rightarrow> finishDialogsList s
      | MTPmessages_dialogsSlice wireEmpty info \<Rightarrow>
          if wireEmpty \<or> ds_list info = [] then finishDialogsList s
          else
            (case dialogsProcess s of
               None \<Rightarrow> Inl NullDereference
             | Some dp \<Rightarrow>
                 (let lst = last (ds_list info);
                      dp1 = dp\<lparr> dp_offsetId := di_topMessageId lst,
                                dp_offsetDate := di_topMessageDate lst,
                                dp_offsetPeer := di_input lst \<rparr>
                  in and_then (appendDialogsSlice (s\<lparr> dialogsProcess := Some dp1 \<rparr>) info)
                       requestDialogsSlice)))"

subsection \<open>File parts\<close>

text \<open>
  \<open>ranges::find\<close> by offset, then \<open>i->bytes = data.vbytes.v\<close>: the first request with the
  offset gets the bytes; \<open>None\<close> when no request has the offset (the \<open>Assert\<close> fails).
\<close>

fun fill_request :: "Request list \<Rightarrow> int \<Rightarrow> QByteArray \<Rightarrow> Request list option" where
  "fill_request [] offset bytes = None"
| "fill_request (r # rs) offset bytes =
     (if rq_offset r = offset then Some (r\<lparr> rq_bytes := bytes \<rparr> # rs)
      else map_option (\<lambda>rs1. r # rs1) (fill_request rs offset bytes))"

text \<open>
  The loop \<open>while (!requests.empty() && !requests.front().bytes.isEmpty())\<close>: write the
  head, pop it.  The result says whether every write succeeded, and gives the state and
  the requests that remain.
\<close>

fun write_ready :: "ApiWrap \<Rightarrow> QString \<Rightarrow> Request list \<Rightarrow> bool \<times> ApiWrap \<times> Request list" where
  "write_ready s file [] = (True, s, [])"
| "write_ready s file (r # rs) =
     (if rq_bytes r = [] then (True, s, r # rs)
      else case writeBlock s file (rq_bytes r) of
             (Success, s1) \<Rightarrow> write_ready s1 file rs
           | (Error, s1) \<Rightarrow> (False, s1, r # rs))"

definition invoke_done :: "ApiWrap \<Rightarrow> DoneCallback \<Rightarrow> QString \<Rightarrow> fatal + ApiWrap" where
  "invoke_done s done relativePath =
     (case done of
        DoneEmpty \<Rightarrow> Inl NullDereference
      | DoneUserpic \<Rightarrow> loadUserpicDone s relativePath
      | DoneMessageFile \<Rightarrow> loadMessageFileDone s relativePath)"

text \<open>The end of \<open>filePartDone\<close>: take the process, remember the file, call \<open>done\<close>.\<close>

definition fileProcessDone :: "ApiWrap \<Rightarrow> FileProcess \<Rightarrow> fatal + ApiWrap" where
  "fileProcessDone s process =
     invoke_done
       (s\<lparr> fileProcess := None,
            fileCache := cache_save (fileCache s) (fp_location process) (fp_relativePath process) \<rparr>)
       (fp_done process) (fp_relativePath process)"

definition filePartDone :: "ApiWrap \<Rightarrow> int \<Rightarrow> MTPupload_File \<Rightarrow> fatal + ApiWrap" where
  "filePartDone s offset result =
     (case fileProcess s of
        None \<Rightarrow> Inl ExpectsFailed
      | Some p \<Rightarrow>
          if fp_requests p = [] then Inl ExpectsFailed
          else case result of
            MTPupload_fileCdnRedirect \<Rightarrow> Inr (error_text s (qstr ''Cdn redirect is not supported.''))
          | MTPupload_file bytes \<Rightarrow>
              if bytes = [] then
                (if fp_size p > 0
                 then Inr (error_text s (qstr ''Empty bytes received in file part.''))
                 else fileProcessDone s p)
              else
                (case fill_request (fp_requests p) offset bytes of
                   None \<Rightarrow> Inl AssertFailed
                 | Some requests \<Rightarrow>
                     (case write_ready s (fp_file p) requests of
                        (False, s1, requests1) \<Rightarrow>
                          Inr (error_text (s1\<lparr> fileProcess := Some (p\<lparr> fp_requests := requests1 \<rparr>) \<rparr>)
                                 (qstr ''Could not write bytes to '' @ [0x27]
                                  @ fp_relativePath p @ [0x27] @ qstr ''.''))
                      | (True, s1, requests1) \<Rightarrow>
                          (let p1 = p\<lparr> fp_requests := requests1 \<rparr>;
                               s2 = s1\<lparr> fileProcess := Some p1 \<rparr>
                           in if requests1 \<noteq> [] \<or> fp_size p1 = 0 \<or> fp_size p1 > fp_offset p1
                              then loadFilePart s2
                              else fileProcessDone s2 p1))))"

subsection \<open>The events that drive ApiWrap\<close>

text \<open>
  The caller calls the public methods; the transport answers a request that is waiting,
  with a response of the type of the request, or with an error.
\<close>

datatype Event =
    StartExport Settings
  | RequestPersonalInfo
  | RequestUserpics
  | RequestContacts
  | RequestSessions
  | RequestDialogs
  | Done Handler Response
  | Fail Handler RPCError

fun handle :: "ApiWrap \<Rightarrow> Handler \<Rightarrow> Response \<Rightarrow> (fatal + ApiWrap) option" where
  "handle s H_Takeout (R_Takeout i) = Some (Inr (call (s\<lparr> takeoutId := Some i \<rparr>) CB_exportStarted))"
| "handle s H_PersonalInfo (R_UserFull isUser) =
     Some (Inr (if isUser then call s CB_personalInfo else error_text s (qstr ''Bad user type.'')))"
| "handle s H_UserpicsFirst (R_Photos result) = Some (userpicsFirstDone s result)"
| "handle s H_UserpicsNext (R_Photos result) = Some (handleUserpicsSlice s result)"
| "handle s H_Contacts R_Contacts = Some (Inr (call s CB_contacts))"
| "handle s H_Sessions R_Sessions = Some (Inr (call s CB_sessions))"
| "handle s H_Dialogs (R_Dialogs result) = Some (dialogsDone s result)"
| "handle s H_Messages (R_Messages result) = Some (messagesDone s result)"
| "handle s (H_FilePart offset) (R_File result) = Some (filePartDone s offset result)"
| "handle s _ _ = None"

text \<open>
  \<open>step s e\<close> is \<open>None\<close> when the event cannot happen in \<open>s\<close> (no such request is
  waiting, or the response is of another type); otherwise it is the fatal error or the
  next state.
\<close>

definition step :: "ApiWrap \<Rightarrow> Event \<Rightarrow> (fatal + ApiWrap) option" where
  "step s e =
     (case e of
        StartExport st \<Rightarrow> Some (startExport s st)
      | RequestPersonalInfo \<Rightarrow> Some (requestPersonalInfo s)
      | RequestUserpics \<Rightarrow> Some (requestUserpics s)
      | RequestContacts \<Rightarrow> Some (requestContacts s)
      | RequestSessions \<Rightarrow> Some (requestSessions s)
      | RequestDialogs \<Rightarrow> Some (requestDialogs s)
      | Done h r \<Rightarrow>
          if h \<in> set (pending s) then handle (s\<lparr> pending := remove1 h (pending s) \<rparr>) h r
          else None
      | Fail h err \<Rightarrow>
          if h \<in> set (pending s) then Some (Inr (error_rpc (s\<lparr> pending := remove1 h (pending s) \<rparr>) err))
          else None)"

text \<open>The states that ApiWrap can reach from its construction.\<close>

inductive reachable :: "ApiWrap \<Rightarrow> bool" where
  reachable_new: "reachable (ApiWrap_new ro prepare)"
| reachable_step: "reachable s \<Longrightarrow> step s e = Some (Inr s') \<Longrightarrow> reachable s'"

text \<open>Running a list of events from a state; a fatal error or an impossible event ends the run.\<close>

fun run :: "ApiWrap \<Rightarrow> Event list \<Rightarrow> (fatal + ApiWrap) option" where
  "run s [] = Some (Inr s)"
| "run s (e # es) =
     (case step s e of
        Some (Inr s1) \<Rightarrow> run s1 es
      | r \<Rightarrow> r)"

section \<open>Notions used in the statements\<close>

text \<open>Delivering chunk responses, each with its offset, to \<open>filePartDone\<close> one after the other.\<close>

fun deliver :: "ApiWrap \<Rightarrow> (int \<times> QByteArray) list \<Rightarrow> fatal + ApiWrap" where
  "deliver s [] = Inr s"
| "deliver s ((offset, bytes) # rest) =
     and_then (filePartDone s offset (MTPupload_file bytes)) (\<lambda>s1. deliver s1 rest)"

text \<open>The in-flight queue of the active transfer is not longer than \<open>kFileRequestsCount\<close>.\<close>

definition requests_bounded :: "ApiWrap \<Rightarrow> bool" where
  "requests_bounded s =
     (case fileProcess s of
        None \<Rightarrow> True
      | Some p \<Rightarrow> length (fp_requests p) \<le> kFileRequestsCount)"

text \<open>A placeholder of the in-flight queue, as \<open>loadFilePart\<close> pushes it.\<close>

definition placeholder :: "int \<Rightarrow> Request" where
  "placeholder offset = \<lparr> rq_offset = offset, rq_bytes = [] \<rparr>"

text \<open>Concrete inputs: settings, a dialog, a photo with a file to load, states of ApiWrap.\<close>

definition settings0 :: Settings where
  "settings0 = \<lparr> st_path = qstr ''export/'', st_types = {PersonalChats}, st_fullChats = {},
                 st_media = \<lparr> media_types = {Type_Photo}, media_sizeLimit = 8 \<rparr> \<rparr>"

definition dialog0 :: DialogInfo where
  "dialog0 = \<lparr> di_type = Personal, di_name = ''A'', di_input = MTPinputPeerUser 5 0,
                di_topMessageId = 1, di_topMessageDate = 0, di_relativePath = [] \<rparr>"

definition file0 :: File where
  "file0 = File_default\<lparr> f_size := 5, f_location := locA, f_suggestedPath := qstr ''a.jpg'' \<rparr>"

definition photo0 :: Photo where
  "photo0 = \<lparr> photo_id = 7, photo_date = 1,
               photo_image = \<lparr> img_width = 1, img_height = 1, img_file = file0 \<rparr> \<rparr>"

definition api0 :: ApiWrap where
  "api0 = ApiWrap_new {} (\<lambda>folder suggested. suggested)"

definition api1 :: ApiWrap where
  "api1 = api0\<lparr> settings := Some settings0, takeoutId := Some 1 \<rparr>"

definition dp12 :: DialogsProcess where
  "dp12 = \<lparr> dp_info = \<lparr> ds_list = replicate 12 dialog0 \<rparr>, dp_offsetDate = 0, dp_offsetId = 0,
             dp_offsetPeer = MTPinputPeerEmpty, dp_single = None, dp_singleIndex = - 1 \<rparr>"

text \<open>
  Two relations between the state before and the state after a call.  \<open>still\<close>: the call
  leaves the file transfer and the disk alone.  \<open>loads\<close>: the call may start a transfer,
  keeps the bound on the in-flight queue, and leaves the disk alone when no transfer
  was active before.
\<close>

definition still :: "ApiWrap \<Rightarrow> ApiWrap \<Rightarrow> bool" where
  "still s s' = (fileProcess s' = fileProcess s \<and> disk s' = disk s \<and> unwritable s' = unwritable s)"

definition loads :: "ApiWrap \<Rightarrow> ApiWrap \<Rightarrow> bool" where
  "loads s s' = (unwritable s' = unwritable s
                 \<and> (requests_bounded s \<longrightarrow> requests_bounded s')
                 \<and> (fileProcess s = None \<longrightarrow> disk s' = disk s))"

text \<open>The state that a run ends in (the initial state when the run fails).\<close>

definition state_of :: "(fatal + ApiWrap) option \<Rightarrow> ApiWrap" where
  "state_of r = (case r of Some (Inr s) \<Rightarrow> s | _ \<Rightarrow> api0)"

text \<open>
  Two runs of events.  In the first the caller asks for the userpics and then for the
  dialogs.  In the second the first page of userpics arrives as well, with one photo
  whose file has to be loaded.
\<close>

definition events_two_processes :: "Event list" where
  "events_two_processes =
     [StartExport settings0, Done H_Takeout (R_Takeout 1), RequestUserpics, RequestDialogs]"

definition events_transfer :: "Event list" where
  "events_transfer =
     [StartExport settings0, Done H_Takeout (R_Takeout 1), RequestDialogs, RequestUserpics,
      Done H_UserpicsFirst (R_Photos (MTPphotos_photos \<lparr> us_list = [photo0] \<rparr>))]"


text \<open>
  The in-flight queue during the delivery of chunks.  \<open>C\<close> are the chunks, each an offset
  with its bytes, that are not written yet, in the order of the queue; \<open>D\<close> are the
  offsets whose response has arrived.  The slot of a chunk holds its bytes once the
  response has arrived.  Behind the slots the queue may hold placeholders of later
  requests.  The head of the queue is a chunk that has not arrived.
\<close>

definition slot :: "int set \<Rightarrow> int \<times> QByteArray \<Rightarrow> Request" where
  "slot D c = \<lparr> rq_offset = fst c, rq_bytes = (if fst c \<in> D then snd c else []) \<rparr>"

definition transfer_inv :: "ApiWrap \<Rightarrow> QString \<Rightarrow> (int \<times> QByteArray) list \<Rightarrow> int set \<Rightarrow> bool" where
  "transfer_inv s file C D =
     (\<exists>p E. fileProcess s = Some p \<and> fp_file p = file \<and> file \<notin> unwritable s
            \<and> fp_requests p = map (slot D) C @ E \<and> (\<forall>e \<in> set E. rq_bytes e = [])
            \<and> distinct (map fst C) \<and> (\<forall>c \<in> set C. snd c \<noteq> [])
            \<and> (C \<noteq> [] \<longrightarrow> fst (hd C) \<notin> D))"

text \<open>
  The transfer goes on after the \<open>n\<close> chunks that are awaited: the session is open, the
  location is valid, and a later request is in flight already, or the size is unknown,
  or the size is beyond the offset.
\<close>

definition can_continue :: "ApiWrap \<Rightarrow> nat \<Rightarrow> bool" where
  "can_continue s n =
     (takeoutId s \<noteq> None
      \<and> (\<exists>p. fileProcess s = Some p \<and> dcId (fp_location p) \<noteq> 0
             \<and> (length (fp_requests p) > n \<or> fp_size p = 0 \<or> fp_size p > fp_offset p)))"

text \<open>The three chunks at the offsets 0, \<open>kFileChunkSize\<close> and \<open>2 * kFileChunkSize\<close>.\<close>

definition chunks3 :: "QByteArray \<Rightarrow> QByteArray \<Rightarrow> QByteArray \<Rightarrow> (int \<times> QByteArray) list" where
  "chunks3 b0 b1 b2 = [(0, b0), (kFileChunkSize, b1), (2 * kFileChunkSize, b2)]"

text \<open>
  A transfer that awaits three chunks, of a file of unknown size; a message with a
  sticker; a file without a remote location.
\<close>

definition fp3 :: FileProcess where
  "fp3 = \<lparr> fp_file = qstr ''export/a.jpg'', fp_relativePath = qstr ''a.jpg'',
            fp_done = DoneUserpic, fp_location = locA, fp_offset = 3 * kFileChunkSize,
            fp_size = 0,
            fp_requests = [placeholder 0, placeholder kFileChunkSize,
                           placeholder (2 * kFileChunkSize)] \<rparr>"

definition api3 :: ApiWrap where
  "api3 = api1\<lparr> fileProcess := Some fp3 \<rparr>"

definition sticker_message :: Message where
  "sticker_message =
     \<lparr> msg_id = 3,
       msg_document = Some \<lparr> isSticker = True, isVideoMessage = False, isVoiceMessage = False,
                             isAnimated = False, isVideoFile = False \<rparr>,
       msg_file = file0 \<rparr>"


text \<open>A formatter of dates for the names of the photos.\<close>

definition no_date :: "int32 \<Rightarrow> QString" where
  "no_date date = qstr ''2018_06_01''"



definition api_sticker_slice :: ApiWrap where
  "api_sticker_slice =
     api1\<lparr> dialogsProcess := Some (dp12\<lparr> dp_singleIndex := 0,
              dp_single := Some \<lparr> sg_info = dialog0, sg_offsetId = 1,
                                  sg_slice = Some \<lparr> ml_list = [sticker_message] \<rparr>,
                                  sg_lastSlice = False, sg_fileIndex = - 1 \<rparr> \<rparr>) \<rparr>"

section \<open>Peer identifiers: round trip and disjoint namespaces\<close>

lemma mask32_numeral: "(0xFFFFFFFF :: 64 word) = mask 32"
  by (simp add: mask_eq_exp_minus_1)

lemma bit_kUserPeerIdShift: "bit kUserPeerIdShift n \<longleftrightarrow> n = 32"
  unfolding kUserPeerIdShift_def push_bit_of_1 by (auto simp only: bit_exp_iff) simp_all

lemma bit_kChatPeerIdShift: "bit kChatPeerIdShift n \<longleftrightarrow> n = 33"
proof -
  have "bit (push_bit 33 (1::64 word)) n \<longleftrightarrow> n = 33"
    unfolding push_bit_of_1 by (auto simp only: bit_exp_iff) simp_all
  moreover have "kChatPeerIdShift = push_bit 33 1" by (simp add: kChatPeerIdShift_def)
  ultimately show ?thesis by (simp only:)
qed

lemma BarePeerId_UserPeerId: "BarePeerId (UserPeerId x) = x"
  unfolding BarePeerId_def UserPeerId_def mask32_numeral
  by (rule bit_word_eqI) (auto simp: bit_simps bit_kUserPeerIdShift)

lemma BarePeerId_ChatPeerId: "BarePeerId (ChatPeerId x) = x"
  unfolding BarePeerId_def ChatPeerId_def mask32_numeral
  by (rule bit_word_eqI) (auto simp: bit_simps bit_kChatPeerIdShift)

lemma peer_namespace_bit:
  "bit (UserPeerId x) 32 \<and> \<not> bit (UserPeerId x) 33 \<and> \<not> bit (ChatPeerId y) 32 \<and> bit (ChatPeerId y) 33"
  unfolding UserPeerId_def ChatPeerId_def
  by (auto simp: bit_simps bit_kUserPeerIdShift bit_kChatPeerIdShift dest: bit_imp_le_length)

text \<open>
  Claim C4, as the code has it.  \<open>UserPeerId\<close> takes an \<open>int32\<close>: for every 32-bit user
  id \<open>x\<close> (negative ones included) \<open>BarePeerId (UserPeerId x) = x\<close>, and a user peer id
  never equals a chat peer id, whatever the two bare ids are; in particular
  \<open>UserPeerId x \<noteq> ChatPeerId x\<close>.
\<close>

theorem peer_id_roundtrip_disjoint:
  "BarePeerId (UserPeerId x) = x \<and> UserPeerId x \<noteq> ChatPeerId y \<and> UserPeerId x \<noteq> ChatPeerId x"
proof -
  have "UserPeerId x \<noteq> ChatPeerId z" for z
    using peer_namespace_bit[of x z] by metis
  then show ?thesis by (simp add: BarePeerId_UserPeerId)
qed

text \<open>
  Claim C4 as stated speaks of 64-bit user ids.  The id \<open>2^32\<close> is a non-negative 64-bit
  value; passed to \<open>UserPeerId\<close> it is narrowed to the \<open>int32\<close> parameter, and the bare id
  that comes back is 0.
\<close>

theorem peer_id_roundtrip_64bit_counterexample:
  "sint (BarePeerId (UserPeerId (ucast (4294967296 :: int64)))) \<noteq> sint (4294967296 :: int64)"
  by (simp add: BarePeerId_def UserPeerId_def kUserPeerIdShift_def)

section \<open>The cache of loaded files: eviction in insertion order\<close>

lemma cache_save_limit [simp]: "cache_limit (cache_save c l p) = cache_limit c"
  by (simp add: cache_save_def Let_def split: list.splits)

lemma cache_save_room:
  "length (cache_list c) < cache_limit c \<Longrightarrow>
   cache_save c l p = c\<lparr> cache_map := (cache_map c)(ComputeLocationKey l \<mapsto> p),
                         cache_list := cache_list c @ [ComputeLocationKey l] \<rparr>"
  by (simp add: cache_save_def Let_def)

lemma cache_save_full:
  "length (cache_list c) \<ge> cache_limit c \<Longrightarrow>
   cache_save c l p = c\<lparr> cache_map := ((cache_map c)(ComputeLocationKey l \<mapsto> p))
                                         (hd (cache_list c @ [ComputeLocationKey l]) := None),
                         cache_list := tl (cache_list c @ [ComputeLocationKey l]) \<rparr>"
  by (cases "cache_list c") (simp_all add: cache_save_def Let_def)

lemma save_all_snoc: "save_all c (saves @ [(l, p)]) = cache_save (save_all c saves) l p"
  by (simp add: save_all_def)

lemma save_all_limit [simp]: "cache_limit (save_all c saves) = cache_limit c"
  by (induction saves rule: rev_induct) (simp_all add: save_all_def split: prod.splits)

lemma save_all_room:
  "length (cache_list c) + length saves \<le> cache_limit c \<Longrightarrow>
   cache_list (save_all c saves) = cache_list c @ map keyOf saves \<and>
   cache_map (save_all c saves) = cache_map c ++ map_of (rev (map (\<lambda>s. (keyOf s, snd s)) saves))"
proof (induction saves rule: rev_induct)
  case Nil
  then show ?case by (simp add: save_all_def)
next
  case (snoc s saves)
  obtain l p where s: "s = (l, p)" by (cases s)
  from snoc have ih: "cache_list (save_all c saves) = cache_list c @ map keyOf saves"
     "cache_map (save_all c saves) = cache_map c ++ map_of (rev (map (\<lambda>s. (keyOf s, snd s)) saves))"
    by simp_all
  from snoc.prems ih have room: "length (cache_list (save_all c saves)) < cache_limit (save_all c saves)"
    by simp
  show ?case unfolding s save_all_snoc cache_save_room[OF room]
    by (auto simp add: ih map_add_def fun_eq_iff keyOf_def)
qed

lemma cache_run_saves: "cache_run c ops = save_all c (saves_of ops)"
proof (induction ops arbitrary: c)
  case Nil show ?case by (simp add: cache_run_def save_all_def)
next
  case (Cons a ops)
  then show ?case by (cases a) (simp_all add: cache_run_def save_all_def)
qed

lemma evict_first:
  assumes "LoadedFileCache_new L = Inr c0" "saves = (l1, p1) # rest" "int (length rest) = L"
  shows "cache_find (save_all c0 saves) l1 = None"
proof -
  from assms(1) have c0: "cache_limit c0 = nat L" "cache_list c0 = []" "L \<ge> 0"
    by (auto simp: LoadedFileCache_new_def split: if_splits)
  show ?thesis
  proof (cases rest rule: rev_cases)
    case Nil
    with assms c0 have "cache_limit c0 = 0" by simp
    then show ?thesis using assms(2) Nil c0
      by (simp add: save_all_def cache_save_full cache_find_def)
  next
    case (snoc front s)
    obtain l p where s: "s = (l, p)" by (cases s)
    let ?c = "save_all c0 ((l1, p1) # front)"
    have len: "length ((l1, p1) # front) = cache_limit c0" using assms(3) snoc c0 by simp
    then have lst: "cache_list ?c = map keyOf ((l1, p1) # front)"
      using save_all_room[of c0 "(l1, p1) # front"] c0 by simp
    have full: "length (cache_list ?c) \<ge> cache_limit ?c" using lst len by simp
    have "save_all c0 saves = cache_save ?c l p"
      using assms(2) snoc s save_all_snoc[of c0 "(l1, p1) # front" l p] by simp
    then show ?thesis unfolding cache_find_def
      by (simp add: cache_save_full[OF full] lst keyOf_def)
  qed
qed

lemmas cache_eval = cache_run_def cache_save_def cache_find_def ComputeLocationKey_def
  LoadedFileCache_new_def locA_def locB_def save_all_def Let_def keyOf_def

text \<open>
  Claim C2.  Start from the empty cache with limit \<open>L\<close> and run any sequence of \<open>save\<close>
  and \<open>find\<close> calls whose saves are \<open>L + 1\<close> in number, the first of them for location
  \<open>l1\<close>.  Then \<open>find l1\<close> returns nothing, wherever and however often \<open>find\<close> was
  called in between: eviction follows insertion order, lookups do not refresh an entry.
  (The saved locations need not even be distinct.)
\<close>

theorem cache_fifo_eviction:
  assumes "LoadedFileCache_new L = Inr c0"
    and "saves_of ops = (l1, p1) # rest"
    and "int (length rest) = L"
  shows "cache_find (cache_run c0 ops) l1 = None"
  using evict_first[OF assms(1) _ assms(3), of "saves_of ops" l1 p1] assms(2)
  by (simp add: cache_run_saves)

theorem cache_fifo_eviction_witness:
  "cache_find (cache_run \<lparr> cache_limit = 1, cache_map = Map.empty, cache_list = [] \<rparr>
      [Save locA (qstr ''a''), Find locA]) locA = Some (qstr ''a'')
   \<and> cache_find (cache_run \<lparr> cache_limit = 1, cache_map = Map.empty, cache_list = [] \<rparr>
      [Save locA (qstr ''a''), Find locA, Find locA, Save locB (qstr ''b'')]) locA = None"
proof
  show "cache_find (cache_run \<lparr> cache_limit = 1, cache_map = Map.empty, cache_list = [] \<rparr>
      [Save locA (qstr ''a''), Find locA]) locA = Some (qstr ''a'')"
    by (simp add: cache_eval)
next
  have new: "LoadedFileCache_new 1 = Inr \<lparr> cache_limit = 1, cache_map = Map.empty, cache_list = [] \<rparr>"
    by (simp add: LoadedFileCache_new_def)
  show "cache_find (cache_run \<lparr> cache_limit = 1, cache_map = Map.empty, cache_list = [] \<rparr>
      [Save locA (qstr ''a''), Find locA, Find locA, Save locB (qstr ''b'')]) locA = None"
    by (rule cache_fifo_eviction[OF new, where rest = "[(locB, qstr ''b'')]" and ?p1.0 = "qstr ''a''"])
      simp_all
qed

lemma dom_map_of_keys:
  "dom (map_of (rev (map (\<lambda>s. (keyOf s, snd s)) saves))) = set (map keyOf saves)"
  by (induction saves) (auto simp: dom_map_of_conv_image_fst image_Un)

text \<open>
  Claim C3.  Save the pairwise distinct locations \<open>saves\<close>, the oldest of them \<open>l1\<close>, into
  the empty cache with limit \<open>L\<close>, not more than \<open>L\<close> of them.  The cache then holds them
  all.  Saving \<open>l1\<close> once more appends its key to the queue although the key is present:
  while the cache is not full the queue then has a duplicate and is longer than the map
  has entries; when the cache is full (\<open>L\<close> locations) the re-save evicts the queue front,
  which is the key of \<open>l1\<close> itself, and \<open>find l1\<close> returns nothing right after \<open>l1\<close> was
  saved.
\<close>

theorem cache_resave_oldest:
  assumes "LoadedFileCache_new L = Inr c0"
    and "saves = (l1, p1) # rest"
    and "distinct (map keyOf saves)"
    and "length saves \<le> nat L"
  shows "cache_list (save_all c0 saves) = map keyOf saves
       \<and> card (dom (cache_map (save_all c0 saves))) = length saves
       \<and> cache_find (save_all c0 saves) l1 = Some p1
       \<and> (length saves < nat L \<longrightarrow>
            cache_list (cache_save (save_all c0 saves) l1 p) = map keyOf saves @ [ComputeLocationKey l1]
          \<and> \<not> distinct (cache_list (cache_save (save_all c0 saves) l1 p))
          \<and> card (dom (cache_map (cache_save (save_all c0 saves) l1 p)))
              < length (cache_list (cache_save (save_all c0 saves) l1 p)))
       \<and> (length saves = nat L \<longrightarrow>
            cache_find (cache_save (save_all c0 saves) l1 p) l1 = None)"
proof -
  let ?c = "save_all c0 saves"
  from assms(1) have c0: "cache_limit c0 = nat L" "cache_list c0 = []" "cache_map c0 = Map.empty"
    by (auto simp: LoadedFileCache_new_def split: if_splits)
  have lst: "cache_list ?c = map keyOf saves"
    and mp: "cache_map ?c = map_of (rev (map (\<lambda>s. (keyOf s, snd s)) saves))"
    using save_all_room[of c0 saves] c0 assms(4) by simp_all
  have dom: "dom (cache_map ?c) = set (map keyOf saves)"
    unfolding mp by (rule dom_map_of_keys)
  have crd: "card (dom (cache_map ?c)) = length saves"
    unfolding dom using distinct_card[OF assms(3)] by simp
  have "distinct (map fst (rev (map (\<lambda>s. (keyOf s, snd s)) saves)))"
    using assms(3) by (simp add: rev_map[symmetric] comp_def)
  moreover have "(keyOf (l1, p1), p1) \<in> set (rev (map (\<lambda>s. (keyOf s, snd s)) saves))"
    using assms(2) by simp
  ultimately have "map_of (rev (map (\<lambda>s. (keyOf s, snd s)) saves)) (keyOf (l1, p1)) = Some p1"
    by (rule map_of_is_SomeI)
  then have fnd: "cache_find ?c l1 = Some p1"
    by (simp add: cache_find_def mp keyOf_def)
  have k1: "ComputeLocationKey l1 \<in> set (map keyOf saves)" using assms(2) by (simp add: keyOf_def)
  have room: "length saves < nat L \<longrightarrow>
            cache_list (cache_save ?c l1 p) = map keyOf saves @ [ComputeLocationKey l1]
          \<and> \<not> distinct (cache_list (cache_save ?c l1 p))
          \<and> card (dom (cache_map (cache_save ?c l1 p))) < length (cache_list (cache_save ?c l1 p))"
  proof
    assume lt: "length saves < nat L"
    then have r: "length (cache_list ?c) < cache_limit ?c" using lst c0 by simp
    have "dom (cache_map (cache_save ?c l1 p)) = dom (cache_map ?c)"
      unfolding cache_save_room[OF r] using k1 dom by auto
    then show "cache_list (cache_save ?c l1 p) = map keyOf saves @ [ComputeLocationKey l1]
          \<and> \<not> distinct (cache_list (cache_save ?c l1 p))
          \<and> card (dom (cache_map (cache_save ?c l1 p))) < length (cache_list (cache_save ?c l1 p))"
      using k1 crd by (simp add: cache_save_room[OF r] lst)
  qed
  have full: "length saves = nat L \<longrightarrow> cache_find (cache_save ?c l1 p) l1 = None"
  proof
    assume eq: "length saves = nat L"
    then have f: "length (cache_list ?c) \<ge> cache_limit ?c" using lst c0 by simp
    have "cache_list ?c = ComputeLocationKey l1 # map keyOf rest"
      using lst assms(2) by (simp add: keyOf_def)
    then show "cache_find (cache_save ?c l1 p) l1 = None"
      unfolding cache_find_def cache_save_full[OF f] by simp
  qed
  from lst crd fnd room full show ?thesis by blast
qed

theorem cache_resave_oldest_witness:
  "\<not> distinct (cache_list (cache_save
        (save_all \<lparr> cache_limit = 2, cache_map = Map.empty, cache_list = [] \<rparr> [(locA, qstr ''a'')])
        locA (qstr ''c'')))
   \<and> cache_find (save_all \<lparr> cache_limit = 2, cache_map = Map.empty, cache_list = [] \<rparr>
        [(locA, qstr ''a''), (locB, qstr ''b'')]) locA = Some (qstr ''a'')
   \<and> cache_find (cache_save
        (save_all \<lparr> cache_limit = 2, cache_map = Map.empty, cache_list = [] \<rparr>
           [(locA, qstr ''a''), (locB, qstr ''b'')])
        locA (qstr ''c'')) locA = None"
proof -
  have new: "LoadedFileCache_new 2 = Inr \<lparr> cache_limit = 2, cache_map = Map.empty, cache_list = [] \<rparr>"
    by (simp add: LoadedFileCache_new_def)
  have d1: "distinct (map keyOf [(locA, qstr ''a'')])" by simp
  have d2: "distinct (map keyOf [(locA, qstr ''a''), (locB, qstr ''b'')])"
    by (simp add: keyOf_def ComputeLocationKey_def locA_def locB_def)
  have l1: "length [(locA, qstr ''a'')] \<le> nat 2" by simp
  have l2: "length [(locA, qstr ''a''), (locB, qstr ''b'')] \<le> nat 2" by simp
  have lt: "length [(locA, qstr ''a'')] < nat 2" by simp
  have eq: "length [(locA, qstr ''a''), (locB, qstr ''b'')] = nat 2" by simp
  note r1 = cache_resave_oldest[OF new refl d1 l1, where p = "qstr ''c''"]
  note r2 = cache_resave_oldest[OF new refl d2 l2, where p = "qstr ''c''"]
  from r1 lt have a: "\<not> distinct (cache_list (cache_save
        (save_all \<lparr> cache_limit = 2, cache_map = Map.empty, cache_list = [] \<rparr> [(locA, qstr ''a'')])
        locA (qstr ''c'')))" by blast
  from r2 eq have b: "cache_find (save_all \<lparr> cache_limit = 2, cache_map = Map.empty, cache_list = [] \<rparr>
        [(locA, qstr ''a''), (locB, qstr ''b'')]) locA = Some (qstr ''a'')
   \<and> cache_find (cache_save
        (save_all \<lparr> cache_limit = 2, cache_map = Map.empty, cache_list = [] \<rparr>
           [(locA, qstr ''a''), (locB, qstr ''b'')])
        locA (qstr ''c'')) locA = None" by blast
  from a b show ?thesis by blast
qed

section \<open>Slices: which of them are reversed\<close>

lemma foldl_snoc_map: "foldl (\<lambda>result x. result @ [f x]) acc xs = acc @ map f xs"
  by (induction xs arbitrary: acc) simp_all

text \<open>
  Claim C5, as the code has it.  \<open>ParseMessagesSlice\<close> returns the parsed messages in the
  reverse of the wire order; \<open>ParseUserpicsSlice\<close> returns the parsed photos in the wire
  order (newest first), it does not reverse them.
\<close>

theorem slices_order:
  "fst (ParseMessagesSlice ParseMessage ParsePeersLists wire users chats mediaFolder)
     = rev (map (\<lambda>message. ParseMessage message mediaFolder) wire)
   \<and> us_list (ParseUserpicsSlice formatDate photos)
     = map (\<lambda>photo. ParsePhoto photo (userpic_suggestedPath formatDate photo)) photos"
  by (simp add: ParseMessagesSlice_def ParseUserpicsSlice_def foldl_snoc_map)

text \<open>
  Claim C5 as stated fails for the userpics: a wire batch of the two photos 1, 2 is
  parsed to the list with the ids 1, 2, which is not the reverse of the wire order.
\<close>

theorem userpics_not_reversed_counterexample:
  "map photo_id (us_list (ParseUserpicsSlice no_date [MTPphotoEmpty 1, MTPphotoEmpty 2])) = [1, 2]
   \<and> map photo_id (us_list (ParseUserpicsSlice no_date [MTPphotoEmpty 1, MTPphotoEmpty 2]))
     \<noteq> rev [1, 2]"
  by (simp add: ParseUserpicsSlice_def Photo_default_def)

section \<open>The folders of the dialogs\<close>

lemma FillLeft_replicate:
  "0 \<le> w \<Longrightarrow> FillLeft str w f = replicate (nat w - length str) f @ str"
  by (auto simp: FillLeft_def nat_diff_distrib)

lemma fillDialogsPaths_loop_length [simp]:
  "length (fillDialogsPaths_loop digits index list) = length list"
  by (induction list arbitrary: index) (simp_all add: Let_def)

lemma fillDialogsPaths_loop_nth:
  "i < length list \<Longrightarrow>
   fillDialogsPaths_loop digits index list ! i =
     (list ! i)\<lparr> di_relativePath :=
        qstr (''Chats/chat_'' @ NumberToString (index + 1 + int i) digits CHR ''0'' @ ''/'') \<rparr>"
proof (induction list arbitrary: index i)
  case Nil
  then show ?case by simp
next
  case (Cons d list)
  show ?case
  proof (cases i)
    case 0
    then show ?thesis by (simp add: Let_def)
  next
    case (Suc j)
    with Cons.prems have j: "j < length list" by simp
    have e: "index + 1 + 1 + int j = index + 1 + int i" using Suc by simp
    have "fillDialogsPaths_loop digits index (d # list) ! i
          = fillDialogsPaths_loop digits (index + 1) list ! j"
      using Suc by (simp add: Let_def)
    also have "\<dots> = (list ! j)\<lparr> di_relativePath :=
        qstr (''Chats/chat_'' @ NumberToString (index + 1 + 1 + int j) digits CHR ''0'' @ ''/'') \<rparr>"
      by (rule Cons.IH[OF j])
    also have "\<dots> = ((d # list) ! i)\<lparr> di_relativePath :=
        qstr (''Chats/chat_'' @ NumberToString (index + 1 + int i) digits CHR ''0'' @ ''/'') \<rparr>"
      by (simp only: e Suc nth_Cons_Suc)
    finally show ?thesis .
  qed
qed

lemma size_minus_one_pos: "0 < n \<Longrightarrow> n < 2 ^ 64 \<Longrightarrow> size_minus_one n = int (n - 1)"
  unfolding size_minus_one_def
  by (simp add: of_nat_diff)

lemma fillDialogsPaths_list_length [simp]: "length (fillDialogsPaths_list list) = length list"
  by (simp add: fillDialogsPaths_list_def Let_def)

lemma fillDialogsPaths_list_nth:
  assumes "i < length list" "length list < 2 ^ 64"
  shows "fillDialogsPaths_list list ! i =
     (list ! i)\<lparr> di_relativePath :=
        qstr (''Chats/chat_''
              @ replicate (length (to_string (length list - 1)) - length (to_string (i + 1))) CHR ''0''
              @ to_string (i + 1) @ ''/'') \<rparr>"
proof -
  have pos: "0 < length list" using assms(1) by (cases list) simp_all
  have d: "NumberToString (size_minus_one (length list)) 0 CHR ''0'' = to_string (length list - 1)"
    by (simp add: size_minus_one_pos[OF pos assms(2)] NumberToString_def FillLeft_def to_string_int_def)
  have n: "NumberToString (0 + 1 + int i) (int (length (to_string (length list - 1)))) CHR ''0''
        = replicate (length (to_string (length list - 1)) - length (to_string (i + 1))) CHR ''0''
          @ to_string (i + 1)"
    by (simp add: NumberToString_def FillLeft_replicate to_string_int_def nat_add_distrib add.commute)
  show ?thesis
    unfolding fillDialogsPaths_list_def Let_def d
    by (simp only: fillDialogsPaths_loop_nth[OF assms(1)] n append_assoc)
qed

text \<open>
  Claim C6.  Let the dialogs process hold \<open>N\<close> dialogs (a vector, so \<open>N < 2^64\<close>).
  \<open>fillDialogsPaths\<close> keeps the list and its order and gives the dialog at position \<open>i\<close>
  (counted from 0) the path \<open>Chats/chat_<k>/\<close> with \<open>k = i + 1\<close>: the numbers start at 1
  and grow by one along the list.  \<open>k\<close> is written in decimal and filled on the left with
  \<open>0\<close> up to the number of digits of \<open>N - 1\<close> (a number with more digits is not cut).
\<close>

theorem dialog_folder_numbering:
  assumes "dialogsProcess s = Some dp"
    and "i < length (ds_list (dp_info dp))"
    and "length (ds_list (dp_info dp)) < 2 ^ 64"
  shows "\<exists>s' dp'. fillDialogsPaths s = Inr s' \<and> dialogsProcess s' = Some dp'
           \<and> length (ds_list (dp_info dp')) = length (ds_list (dp_info dp))
           \<and> ds_list (dp_info dp') ! i =
               (ds_list (dp_info dp) ! i)\<lparr> di_relativePath :=
                  qstr (''Chats/chat_''
                        @ replicate (length (to_string (length (ds_list (dp_info dp)) - 1))
                                     - length (to_string (i + 1))) CHR ''0''
                        @ to_string (i + 1) @ ''/'') \<rparr>"
  using assms fillDialogsPaths_list_nth[OF assms(2,3)]
  by (simp add: fillDialogsPaths_def)

lemma to_string_eval:
  "to_string (Suc 0) = ''1''" "to_string 11 = ''11''" "to_string 12 = ''12''"
  by (simp_all add: to_string.simps digit_char_def)

theorem dialog_folder_numbering_witness:
  "\<exists>s' dp'. fillDialogsPaths (api1\<lparr> dialogsProcess := Some dp12 \<rparr>) = Inr s' \<and> dialogsProcess s' = Some dp'
      \<and> length (ds_list (dp_info dp')) = 12
      \<and> di_relativePath (ds_list (dp_info dp') ! 0) = qstr ''Chats/chat_01/''
      \<and> di_relativePath (ds_list (dp_info dp') ! 11) = qstr ''Chats/chat_12/''"
proof -
  let ?s = "api1\<lparr> dialogsProcess := Some dp12 \<rparr>"
  have p: "dialogsProcess ?s = Some dp12" by simp
  have l0: "0 < length (ds_list (dp_info dp12))" and l11: "11 < length (ds_list (dp_info dp12))"
    and b: "length (ds_list (dp_info dp12)) < 2 ^ 64"
    by (simp_all add: dp12_def)
  have n: "length (ds_list (dp_info dp12)) = 12" by (simp add: dp12_def)
  from dialog_folder_numbering[OF p l0 b] obtain s' dp' where
    a: "fillDialogsPaths ?s = Inr s'" "dialogsProcess s' = Some dp'"
       "length (ds_list (dp_info dp')) = length (ds_list (dp_info dp12))"
    and a0: "ds_list (dp_info dp') ! 0 = (ds_list (dp_info dp12) ! 0)\<lparr> di_relativePath :=
                  qstr (''Chats/chat_''
                        @ replicate (length (to_string (length (ds_list (dp_info dp12)) - 1))
                                     - length (to_string (0 + 1))) CHR ''0''
                        @ to_string (0 + 1) @ ''/'') \<rparr>"
    by blast
  from dialog_folder_numbering[OF p l11 b] a(1,2) have
    a11: "ds_list (dp_info dp') ! 11 = (ds_list (dp_info dp12) ! 11)\<lparr> di_relativePath :=
                  qstr (''Chats/chat_''
                        @ replicate (length (to_string (length (ds_list (dp_info dp12)) - 1))
                                     - length (to_string (11 + 1))) CHR ''0''
                        @ to_string (11 + 1) @ ''/'') \<rparr>"
    by auto
  have "di_relativePath (ds_list (dp_info dp') ! 0) = qstr ''Chats/chat_01/''"
    unfolding a0 n by (simp add: to_string_eval)
  moreover have "di_relativePath (ds_list (dp_info dp') ! 11) = qstr ''Chats/chat_12/''"
    unfolding a11 n by (simp add: to_string_eval)
  ultimately show ?thesis using a n by auto
qed

section \<open>Cleaning document names\<close>

lemma foldl_replace_char:
  "u \<notin> set cs \<Longrightarrow>
   foldl (\<lambda>name ch. replace_char name ch u) name cs = map (\<lambda>c. if c \<in> set cs then u else c) name"
proof (induction cs arbitrary: name)
  case Nil
  then show ?case by simp
next
  case (Cons c cs)
  then have "foldl (\<lambda>name ch. replace_char name ch u) (replace_char name c u) cs
             = map (\<lambda>x. if x \<in> set cs then u else x) (replace_char name c u)"
    by simp
  then show ?case using Cons.prems by (auto simp: replace_char_def)
qed

lemma controls_set:
  "set (controls os) = {0x200E, 0x200F, 0x202A, 0x202B, 0x202D, 0x202E, 0x2066, 0x2067}
     \<union> (case os of Q_OS_WIN \<Rightarrow> {0x5C, 0x2F, 0x3A, 0x2A, 0x3F, 0x22, 0x3C, 0x3E, 0x7C}
         | Q_OS_MAC \<Rightarrow> {0x3A} | Q_OS_LINUX \<Rightarrow> {0x2F} | Q_OS_OTHER \<Rightarrow> {})"
  by (cases os) (auto simp: controls_def qstr_def)

lemma underscore_not_control: "underscore \<notin> set (controls os)"
  unfolding controls_set by (cases os) (simp_all add: underscore_def)

lemma kMaskExtension_no_control: "set kMaskExtension \<inter> set (controls os) = {}"
  unfolding controls_set by (cases os) (simp_all add: kMaskExtension_def qstr_def)

lemma mask_bad_extension_cases:
  "mask_bad_extension name lower exts = name \<or> mask_bad_extension name lower exts = name @ kMaskExtension"
  by (induction exts) simp_all

lemma mask_bad_extension_hit:
  "e \<in> set exts \<Longrightarrow> endsWith lower e \<Longrightarrow> mask_bad_extension name lower exts = name @ kMaskExtension"
  by (induction exts) auto

lemma CleanDocumentName_cases:
  "CleanDocumentName toLower os name = map (\<lambda>c. if c \<in> set (controls os) then underscore else c) name
   \<or> (os = Q_OS_WIN \<and> CleanDocumentName toLower os name
         = map (\<lambda>c. if c \<in> set (controls os) then underscore else c) name @ kMaskExtension)"
  unfolding CleanDocumentName_def Let_def foldl_replace_char[OF underscore_not_control]
  using mask_bad_extension_cases by (cases os) auto

lemma endsWith_iff: "endsWith s e \<longleftrightarrow> (\<exists>xs. s = xs @ e)"
proof
  assume "endsWith s e"
  then have "s = take (length s - length e) s @ e"
    by (metis append_take_drop_id endsWith_def)
  then show "\<exists>xs. s = xs @ e" ..
next
  assume "\<exists>xs. s = xs @ e"
  then show "endsWith s e" by (auto simp: endsWith_def)
qed

lemma trimmed_keeps_suffix:
  assumes "endsWith s e" "e \<noteq> []" "\<not> isSpace (hd e)" "\<not> isSpace (last e)"
  shows "endsWith (trimmed s) e"
proof -
  from assms(1) obtain xs where s: "s = xs @ e" by (auto simp: endsWith_iff)
  have "dropWhile isSpace (xs @ e) = dropWhile isSpace xs @ e \<or> dropWhile isSpace (xs @ e) = e"
  proof (cases "\<forall>x\<in>set xs. isSpace x")
    case True
    then have "dropWhile isSpace (xs @ e) = dropWhile isSpace e" by (simp add: dropWhile_append)
    also have "\<dots> = e" using assms(2,3) by (cases e) simp_all
    finally show ?thesis by simp
  next
    case False
    then show ?thesis by (auto simp: dropWhile_append)
  qed
  then obtain ys where d: "dropWhile isSpace s = ys @ e" unfolding s by auto
  have "dropWhile isSpace (rev (ys @ e)) = rev (ys @ e)"
    using assms(2,4) by (cases e rule: rev_cases) simp_all
  then show ?thesis by (simp add: trimmed_def d endsWith_iff)
qed

lemma cleaned_keeps_suffix:
  assumes "endsWith name e" "set e \<inter> set (controls os) = {}"
  shows "endsWith (map (\<lambda>c. if c \<in> set (controls os) then underscore else c) name) e"
proof -
  from assms(1) obtain xs where s: "name = xs @ e" by (auto simp: endsWith_iff)
  have "map (\<lambda>c. if c \<in> set (controls os) then underscore else c) e = e"
    using assms(2) by (intro map_idI) auto
  then show ?thesis by (simp add: s endsWith_iff)
qed

lemma bad_ext_facts:
  assumes "e \<in> set kBadExtensions"
  shows "e \<noteq> []" "\<not> isSpace (hd e)" "\<not> isSpace (last e)" "set e \<inter> set (controls os) = {}"
        "last e \<noteq> last kMaskExtension"
  using assms unfolding controls_set
  by (cases os; auto simp: kBadExtensions_def qstr_def isSpace_def kMaskExtension_def)+

lemma not_endsWith_masked:
  assumes "e \<in> set kBadExtensions"
  shows "\<not> endsWith (xs @ kMaskExtension) e"
proof
  assume "endsWith (xs @ kMaskExtension) e"
  then obtain ys where "xs @ kMaskExtension = ys @ e" by (auto simp: endsWith_iff)
  then have "last (xs @ kMaskExtension) = last (ys @ e)" by simp
  moreover have "kMaskExtension \<noteq> []" by (simp add: kMaskExtension_def qstr_def)
  ultimately have "last kMaskExtension = last e" using bad_ext_facts(1)[OF assms] by simp
  with bad_ext_facts(5)[OF assms] show False by simp
qed


lemma ascii_toLower_keeps:
  assumes "e \<in> set kBadExtensions" "endsWith s e"
  shows "endsWith (ascii_toLower s) e"
proof -
  from assms(2) obtain xs where s: "s = xs @ e" by (auto simp: endsWith_iff)
  have "ascii_toLower e = e"
    using assms(1) by (auto simp: kBadExtensions_def ascii_toLower_def qstr_def)
  then show ?thesis by (simp add: s endsWith_iff ascii_toLower_def)
qed

lemma controls_no_space: "\<forall>c \<in> set (controls os). \<not> isSpace c"
  by (cases os) (simp_all add: controls_def qstr_def isSpace_def)

lemma isSpace_cleaned:
  "isSpace (if c \<in> set (controls os) then underscore else c) = isSpace c"
proof (cases "c \<in> set (controls os)")
  case True
  have "\<not> isSpace underscore" by (simp add: isSpace_def underscore_def)
  moreover from True controls_no_space have "\<not> isSpace c" by blast
  ultimately show ?thesis using True by simp
next
  case False
  then show ?thesis by simp
qed

lemma dropWhile_isSpace_cleaned:
  "dropWhile isSpace (map (\<lambda>c. if c \<in> set (controls os) then underscore else c) s)
     = map (\<lambda>c. if c \<in> set (controls os) then underscore else c) (dropWhile isSpace s)"
  by (induction s) (simp_all add: isSpace_cleaned del: if_split cong: if_cong)

lemma trimmed_cleaned:
  "trimmed (map (\<lambda>c. if c \<in> set (controls os) then underscore else c) s)
     = map (\<lambda>c. if c \<in> set (controls os) then underscore else c) (trimmed s)"
  by (simp only: trimmed_def dropWhile_isSpace_cleaned rev_map)

lemma lower_of_extension:
  assumes "e \<in> set kBadExtensions"
    and "(if 0x41 \<le> c \<and> c \<le> 0x5A then c + 0x20 else c) \<in> set e"
  shows "(c :: QChar) \<in> {0x2E, 0x6C, 0x6E, 0x6B, 0x73, 0x63, 0x66, 0x4C, 0x4E, 0x4B, 0x53, 0x43, 0x46}"
proof (cases "0x41 \<le> c \<and> c \<le> 0x5A")
  case True
  with assms have "c + 0x20 \<in> {0x2E, 0x6C, 0x6E, 0x6B, 0x73, 0x63, 0x66}"
    by (auto simp: kBadExtensions_def qstr_def)
  moreover have "c = (c + 0x20) - 0x20" by simp
  ultimately have "c \<in> {0x2E - 0x20, 0x6C - 0x20, 0x6E - 0x20, 0x6B - 0x20, 0x73 - 0x20,
                          0x63 - 0x20, 0x66 - 0x20}"
    by (metis (no_types, lifting) insert_iff empty_iff)
  then have "c \<in> {0x0E, 0x4C, 0x4E, 0x4B, 0x53, 0x43, 0x46}" by simp
  moreover from True have "c \<noteq> 0x0E" by auto
  ultimately show ?thesis by blast
next
  case False
  with assms show ?thesis by (auto simp: kBadExtensions_def qstr_def)
qed

lemma extension_letters_no_control:
  "\<forall>c \<in> {0x2E, 0x6C, 0x6E, 0x6B, 0x73, 0x63, 0x66, 0x4C, 0x4E, 0x4B, 0x53, 0x43, 0x46 :: QChar}.
     c \<notin> set (controls os)"
  by (cases os) (simp_all add: controls_def qstr_def)

lemma lower_cleaned:
  assumes "e \<in> set kBadExtensions"
    and "(if 0x41 \<le> c \<and> c \<le> 0x5A then c + 0x20 else c) \<in> set e"
  shows "(c :: QChar) \<notin> set (controls os)"
  using lower_of_extension[OF assms] extension_letters_no_control[of os] by blast

lemma ascii_toLower_cleaned_suffix:
  assumes "e \<in> set kBadExtensions" "endsWith (ascii_toLower s) e"
  shows "endsWith (ascii_toLower (map (\<lambda>c. if c \<in> set (controls os) then underscore else c) s)) e"
proof -
  let ?f = "\<lambda>c. if c \<in> set (controls os) then underscore else c"
  let ?g = "\<lambda>c :: QChar. if 0x41 \<le> c \<and> c \<le> 0x5A then c + 0x20 else c"
  from assms(2) obtain xs where x: "map ?g s = xs @ e"
    unfolding endsWith_iff ascii_toLower_def by blast
  then obtain us vs where s: "s = us @ vs" and e: "e = map ?g vs"
    unfolding map_eq_append_conv by blast
  have keep: "?f c = c" if "c \<in> set vs" for c
  proof -
    from that have "?g c \<in> set e" unfolding e by (rule imageI[of c "set vs" ?g, unfolded set_map[symmetric]])
    then have "c \<notin> set (controls os)" by (rule lower_cleaned[OF assms(1)])
    then show ?thesis by simp
  qed
  have "map ?f vs = vs" by (rule map_idI) (rule keep)
  then have "map ?g (map ?f s) = map ?g (map ?f us) @ e"
    unfolding s e by (simp only: map_append)
  then show ?thesis unfolding endsWith_iff ascii_toLower_def by blast
qed

lemma not_endsWith_lower_masked:
  assumes "e \<in> set kBadExtensions"
  shows "\<not> endsWith (ascii_toLower (xs @ kMaskExtension)) e"
proof
  assume "endsWith (ascii_toLower (xs @ kMaskExtension)) e"
  moreover have "ascii_toLower (xs @ kMaskExtension) = ascii_toLower xs @ kMaskExtension"
    by (simp add: ascii_toLower_def kMaskExtension_def qstr_def)
  ultimately have "endsWith (ascii_toLower xs @ kMaskExtension) e" by simp
  with not_endsWith_masked[OF assms] show False by blast
qed

lemma omitted_controls:
  "0x202C \<notin> set (controls os) \<and> 0x2068 \<notin> set (controls os)
   \<and> 0x2069 \<notin> set (controls os) \<and> 0x061C \<notin> set (controls os)"
  by (cases os) (simp_all add: controls_def qstr_def)

text \<open>
  Claim C10.  On every platform the right-to-left override U+202E is among the
  characters that \<open>CleanDocumentName\<close> replaces, and none of the characters of its list
  (the left-to-right and right-to-left marks, embeddings, overrides and isolates
  U+200E, U+200F, U+202A, U+202B, U+202D, U+202E, U+2066, U+2067, and the path
  characters of the platform) is left in the cleaned name: each is replaced by an
  underscore.  Every other character stays, among them the controls U+202C, U+2068,
  U+2069 and U+061C, which are not in the list.  On Windows, where the list of bad
  extensions is compiled in, a name that ends in one of them, in letters of any case
  and with white space after it or not, gets the suffix \<open>.download\<close> and then ends in
  none of them, in letters of any case; \<open>toLower\<close>, Qt's case mapping, has to turn the
  letters A to Z at the end of a string into lower case (for a name that ends in the
  lower-case extension itself it only has to keep the extension in place).  On the
  other platforms nothing is appended.
\<close>

theorem filename_sanitized:
  "0x202E \<in> set (controls os)
   \<and> (\<forall>c \<in> set (controls os). c \<notin> set (CleanDocumentName toLower os name))
   \<and> take (length name) (CleanDocumentName toLower os name)
       = map (\<lambda>c. if c \<in> set (controls os) then underscore else c) name
   \<and> (os = Q_OS_WIN \<and> e \<in> set kBadExtensions \<and> endsWith name e
        \<and> (\<forall>s. endsWith s e \<longrightarrow> endsWith (toLower s) e)
      \<longrightarrow> CleanDocumentName toLower os name
            = map (\<lambda>c. if c \<in> set (controls os) then underscore else c) name @ kMaskExtension
          \<and> (\<forall>e' \<in> set kBadExtensions. \<not> endsWith (CleanDocumentName toLower os name) e'))
   \<and> (os = Q_OS_WIN \<and> e \<in> set kBadExtensions \<and> endsWith (ascii_toLower (trimmed name)) e
        \<and> (\<forall>s. endsWith (ascii_toLower s) e \<longrightarrow> endsWith (toLower s) e)
      \<longrightarrow> CleanDocumentName toLower os name
            = map (\<lambda>c. if c \<in> set (controls os) then underscore else c) name @ kMaskExtension
          \<and> (\<forall>e' \<in> set kBadExtensions.
                \<not> endsWith (ascii_toLower (CleanDocumentName toLower os name)) e'
                \<and> \<not> endsWith (CleanDocumentName toLower os name) e'))
   \<and> (os \<noteq> Q_OS_WIN
      \<longrightarrow> CleanDocumentName toLower os name
            = map (\<lambda>c. if c \<in> set (controls os) then underscore else c) name)
   \<and> (\<forall>c \<in> set name. c \<notin> set (controls os) \<longrightarrow> c \<in> set (CleanDocumentName toLower os name))
   \<and> 0x202C \<notin> set (controls os) \<and> 0x2068 \<notin> set (controls os)
   \<and> 0x2069 \<notin> set (controls os) \<and> 0x061C \<notin> set (controls os)"
proof -
  let ?f = "\<lambda>c. if c \<in> set (controls os) then underscore else c"
  let ?cleaned = "map ?f name"
  have rtl: "0x202E \<in> set (controls os)" unfolding controls_set by simp
  have no_c: "\<forall>c \<in> set (controls os). c \<notin> set ?cleaned"
    using underscore_not_control[of os] by auto
  have no_m: "\<forall>c \<in> set (controls os). c \<notin> set kMaskExtension"
    using kMaskExtension_no_control[of os] by auto
  have gone: "\<forall>c \<in> set (controls os). c \<notin> set (CleanDocumentName toLower os name)"
    using CleanDocumentName_cases[of toLower os name] no_c no_m by auto
  have pre: "take (length name) (CleanDocumentName toLower os name) = ?cleaned"
    using CleanDocumentName_cases[of toLower os name] by auto
  have hit: "CleanDocumentName toLower os name = ?cleaned @ kMaskExtension"
    if "os = Q_OS_WIN" "e \<in> set kBadExtensions" "endsWith (toLower (trimmed ?cleaned)) e"
    unfolding CleanDocumentName_def Let_def foldl_replace_char[OF underscore_not_control]
    using that by (simp add: mask_bad_extension_hit)
  have ext: "CleanDocumentName toLower os name = ?cleaned @ kMaskExtension
          \<and> (\<forall>e' \<in> set kBadExtensions. \<not> endsWith (CleanDocumentName toLower os name) e')"
    if h: "os = Q_OS_WIN" "e \<in> set kBadExtensions" "endsWith name e"
          "\<forall>s. endsWith s e \<longrightarrow> endsWith (toLower s) e"
  proof -
    have "endsWith ?cleaned e"
      by (rule cleaned_keeps_suffix[OF h(3) bad_ext_facts(4)[OF h(2)]])
    then have "endsWith (trimmed ?cleaned) e"
      by (rule trimmed_keeps_suffix) (rule bad_ext_facts[OF h(2)])+
    with h(4) have "endsWith (toLower (trimmed ?cleaned)) e" by blast
    then have eq: "CleanDocumentName toLower os name = ?cleaned @ kMaskExtension"
      by (rule hit[OF h(1,2)])
    show ?thesis unfolding eq using not_endsWith_masked by blast
  qed
  have ext2: "CleanDocumentName toLower os name = ?cleaned @ kMaskExtension
          \<and> (\<forall>e' \<in> set kBadExtensions.
                \<not> endsWith (ascii_toLower (CleanDocumentName toLower os name)) e'
                \<and> \<not> endsWith (CleanDocumentName toLower os name) e')"
    if h: "os = Q_OS_WIN" "e \<in> set kBadExtensions" "endsWith (ascii_toLower (trimmed name)) e"
          "\<forall>s. endsWith (ascii_toLower s) e \<longrightarrow> endsWith (toLower s) e"
  proof -
    have "endsWith (ascii_toLower (map ?f (trimmed name))) e"
      by (rule ascii_toLower_cleaned_suffix[OF h(2,3)])
    then have "endsWith (ascii_toLower (trimmed ?cleaned)) e"
      by (simp only: trimmed_cleaned)
    with h(4) have "endsWith (toLower (trimmed ?cleaned)) e" by blast
    then have eq: "CleanDocumentName toLower os name = ?cleaned @ kMaskExtension"
      by (rule hit[OF h(1,2)])
    show ?thesis unfolding eq using not_endsWith_masked not_endsWith_lower_masked by blast
  qed
  have other: "CleanDocumentName toLower os name = ?cleaned" if "os \<noteq> Q_OS_WIN"
    unfolding CleanDocumentName_def Let_def foldl_replace_char[OF underscore_not_control]
    using that by (cases os) simp_all
  have kept: "\<forall>c \<in> set name. c \<notin> set (controls os) \<longrightarrow> c \<in> set (CleanDocumentName toLower os name)"
  proof (intro ballI impI)
    fix c assume c: "c \<in> set name" "c \<notin> set (controls os)"
    then have "c \<in> set ?cleaned" by force
    then have "c \<in> set (take (length name) (CleanDocumentName toLower os name))"
      by (simp only: pre)
    then show "c \<in> set (CleanDocumentName toLower os name)" by (rule in_set_takeD)
  qed
  note om = omitted_controls[of os]
  from rtl gone pre ext ext2 other kept om show ?thesis by (intro conjI impI) blast+
qed

theorem filename_sanitized_witness:
  "CleanDocumentName ascii_toLower Q_OS_WIN (qstr ''Fil'' @ [0x202E] @ qstr ''gpj.lnk'')
     = qstr ''Fil_gpj.lnk.download''
   \<and> 0x202E \<notin> set (CleanDocumentName ascii_toLower Q_OS_WIN (qstr ''Fil'' @ [0x202E] @ qstr ''gpj.lnk''))
   \<and> \<not> endsWith (CleanDocumentName ascii_toLower Q_OS_WIN (qstr ''Fil'' @ [0x202E] @ qstr ''gpj.lnk''))
         (qstr ''.lnk'')
   \<and> CleanDocumentName ascii_toLower Q_OS_WIN (qstr ''x.SCF '') = qstr ''x.SCF .download''
   \<and> \<not> endsWith (ascii_toLower (CleanDocumentName ascii_toLower Q_OS_WIN (qstr ''x.SCF ''))) (qstr ''.scf'')
   \<and> CleanDocumentName ascii_toLower Q_OS_LINUX (qstr ''a/b.lnk'') = qstr ''a_b.lnk''"
proof -
  let ?name = "qstr ''Fil'' @ [0x202E] @ qstr ''gpj.lnk''"
  note t = filename_sanitized[of Q_OS_WIN ascii_toLower ?name "qstr ''.lnk''"]
  have e: "qstr ''.lnk'' \<in> set kBadExtensions" by (simp add: kBadExtensions_def)
  have n: "endsWith ?name (qstr ''.lnk'')" by (simp add: endsWith_def qstr_def)
  have l: "\<forall>s. endsWith s (qstr ''.lnk'') \<longrightarrow> endsWith (ascii_toLower s) (qstr ''.lnk'')"
    using ascii_toLower_keeps[OF e] by blast
  from t e n l have
    r: "CleanDocumentName ascii_toLower Q_OS_WIN ?name
         = map (\<lambda>c. if c \<in> set (controls Q_OS_WIN) then underscore else c) ?name @ kMaskExtension"
    and g: "\<forall>c \<in> set (controls Q_OS_WIN). c \<notin> set (CleanDocumentName ascii_toLower Q_OS_WIN ?name)"
    and m: "\<forall>e' \<in> set kBadExtensions. \<not> endsWith (CleanDocumentName ascii_toLower Q_OS_WIN ?name) e'"
    and c: "0x202E \<in> set (controls Q_OS_WIN)"
    by blast+
  have v: "map (\<lambda>c. if c \<in> set (controls Q_OS_WIN) then underscore else c) ?name @ kMaskExtension
        = qstr ''Fil_gpj.lnk.download''"
    by (simp add: controls_def qstr_def underscore_def kMaskExtension_def)
  have r': "CleanDocumentName ascii_toLower Q_OS_WIN ?name = qstr ''Fil_gpj.lnk.download''"
    using r v by (rule trans)
  have g': "0x202E \<notin> set (CleanDocumentName ascii_toLower Q_OS_WIN ?name)"
    using g c by blast
  have m': "\<not> endsWith (CleanDocumentName ascii_toLower Q_OS_WIN ?name) (qstr ''.lnk'')"
    using m e by blast
  note t2 = filename_sanitized[of Q_OS_WIN ascii_toLower "qstr ''x.SCF ''" "qstr ''.scf''"]
  have e2: "qstr ''.scf'' \<in> set kBadExtensions" by (simp add: kBadExtensions_def)
  have n2: "endsWith (ascii_toLower (trimmed (qstr ''x.SCF ''))) (qstr ''.scf'')"
    by (simp add: endsWith_def qstr_def trimmed_def isSpace_def ascii_toLower_def)
  have l2: "\<forall>s. endsWith (ascii_toLower s) (qstr ''.scf'') \<longrightarrow> endsWith (ascii_toLower s) (qstr ''.scf'')"
    by blast
  from t2 e2 n2 l2 have
    r2: "CleanDocumentName ascii_toLower Q_OS_WIN (qstr ''x.SCF '')
         = map (\<lambda>c. if c \<in> set (controls Q_OS_WIN) then underscore else c) (qstr ''x.SCF '') @ kMaskExtension"
    and m2: "\<forall>e' \<in> set kBadExtensions.
                \<not> endsWith (ascii_toLower (CleanDocumentName ascii_toLower Q_OS_WIN (qstr ''x.SCF ''))) e'
                \<and> \<not> endsWith (CleanDocumentName ascii_toLower Q_OS_WIN (qstr ''x.SCF '')) e'"
    by blast+
  have v2: "map (\<lambda>c. if c \<in> set (controls Q_OS_WIN) then underscore else c) (qstr ''x.SCF '') @ kMaskExtension
        = qstr ''x.SCF .download''"
    by (simp add: controls_def qstr_def underscore_def kMaskExtension_def)
  have r2': "CleanDocumentName ascii_toLower Q_OS_WIN (qstr ''x.SCF '') = qstr ''x.SCF .download''"
    using r2 v2 by (rule trans)
  have m2': "\<not> endsWith (ascii_toLower (CleanDocumentName ascii_toLower Q_OS_WIN (qstr ''x.SCF ''))) (qstr ''.scf'')"
    using m2 e2 by blast
  note t3 = filename_sanitized[of Q_OS_LINUX ascii_toLower "qstr ''a/b.lnk''" "qstr ''.lnk''"]
  have o: "Q_OS_LINUX \<noteq> Q_OS_WIN" by simp
  from t3 o have r3: "CleanDocumentName ascii_toLower Q_OS_LINUX (qstr ''a/b.lnk'')
         = map (\<lambda>c. if c \<in> set (controls Q_OS_LINUX) then underscore else c) (qstr ''a/b.lnk'')"
    by blast
  have v3: "map (\<lambda>c. if c \<in> set (controls Q_OS_LINUX) then underscore else c) (qstr ''a/b.lnk'')
        = qstr ''a_b.lnk''"
    by (simp add: controls_def qstr_def underscore_def)
  have r3': "CleanDocumentName ascii_toLower Q_OS_LINUX (qstr ''a/b.lnk'') = qstr ''a_b.lnk''"
    using r3 v3 by (rule trans)
  from r' g' m' r2' m2' r3' show ?thesis by blast
qed

text \<open>
  The claim as stated fails for the controls that are not in the list: a name with the
  pop directional formatting U+202C and the first strong isolate U+2068 comes back as
  it is, with both characters in it.
\<close>

theorem bidi_control_kept_counterexample:
  "CleanDocumentName ascii_toLower Q_OS_WIN (qstr ''Fil'' @ [0x2068, 0x202C] @ qstr ''gpj.exe'')
     = qstr ''Fil'' @ [0x2068, 0x202C] @ qstr ''gpj.exe''
   \<and> 0x2068 \<in> set (CleanDocumentName ascii_toLower Q_OS_WIN (qstr ''Fil'' @ [0x2068, 0x202C] @ qstr ''gpj.exe''))
   \<and> 0x202C \<in> set (CleanDocumentName ascii_toLower Q_OS_WIN (qstr ''Fil'' @ [0x2068, 0x202C] @ qstr ''gpj.exe''))"
  by (simp add: CleanDocumentName_def controls_def replace_char_def qstr_def underscore_def
                trimmed_def isSpace_def ascii_toLower_def kBadExtensions_def endsWith_def)



section \<open>The offset of the next chunk\<close>

lemma int_add_in_range:
  "- (2 ^ 31) \<le> a + b \<Longrightarrow> a + b < 2 ^ 31 \<Longrightarrow> int_add a b = a + b"
  unfolding int_add_def by (simp add: mod_pos_pos_trivial)

lemma int_add_wraps: "int_add (2 ^ 31 - kFileChunkSize) kFileChunkSize = - (2 ^ 31)"
  by (simp add: int_add_def kFileChunkSize_def)

section \<open>What the calls of ApiWrap leave unchanged\<close>

lemma and_then_Inr: "and_then r f = Inr y \<longleftrightarrow> (\<exists>a. r = Inr a \<and> f a = Inr y)"
  by (cases r) (simp_all add: and_then_def)

lemma and_then_simps [simp]: "and_then (Inl e) f = Inl e" "and_then (Inr a) f = f a"
  by (simp_all add: and_then_def)

lemma send_fields [simp]:
  "fileCache (send s r h) = fileCache s"
  "settings (send s r h) = settings s"
  "takeoutId (send s r h) = takeoutId s"
  "userpicsProcess (send s r h) = userpicsProcess s"
  "fileProcess (send s r h) = fileProcess s"
  "dialogsProcess (send s r h) = dialogsProcess s"
  "errors (send s r h) = errors s"
  "called (send s r h) = called s"
  "disk (send s r h) = disk s"
  "unwritable (send s r h) = unwritable s"
  "prepareRelativePath (send s r h) = prepareRelativePath s"
  by (simp_all add: send_def)

lemma call_fields [simp]:
  "fileCache (call s c) = fileCache s"
  "settings (call s c) = settings s"
  "takeoutId (call s c) = takeoutId s"
  "userpicsProcess (call s c) = userpicsProcess s"
  "fileProcess (call s c) = fileProcess s"
  "dialogsProcess (call s c) = dialogsProcess s"
  "sent (call s c) = sent s"
  "pending (call s c) = pending s"
  "errors (call s c) = errors s"
  "disk (call s c) = disk s"
  "unwritable (call s c) = unwritable s"
  "prepareRelativePath (call s c) = prepareRelativePath s"
  by (simp_all add: call_def)

lemma error_text_fields [simp]:
  "fileCache (error_text s t) = fileCache s"
  "settings (error_text s t) = settings s"
  "takeoutId (error_text s t) = takeoutId s"
  "userpicsProcess (error_text s t) = userpicsProcess s"
  "fileProcess (error_text s t) = fileProcess s"
  "dialogsProcess (error_text s t) = dialogsProcess s"
  "sent (error_text s t) = sent s"
  "pending (error_text s t) = pending s"
  "called (error_text s t) = called s"
  "disk (error_text s t) = disk s"
  "unwritable (error_text s t) = unwritable s"
  "prepareRelativePath (error_text s t) = prepareRelativePath s"
  by (simp_all add: error_text_def error_rpc_def)

lemma error_rpc_fields [simp]:
  "fileCache (error_rpc s e) = fileCache s"
  "settings (error_rpc s e) = settings s"
  "takeoutId (error_rpc s e) = takeoutId s"
  "userpicsProcess (error_rpc s e) = userpicsProcess s"
  "fileProcess (error_rpc s e) = fileProcess s"
  "dialogsProcess (error_rpc s e) = dialogsProcess s"
  "sent (error_rpc s e) = sent s"
  "pending (error_rpc s e) = pending s"
  "called (error_rpc s e) = called s"
  "disk (error_rpc s e) = disk s"
  "unwritable (error_rpc s e) = unwritable s"
  "prepareRelativePath (error_rpc s e) = prepareRelativePath s"
  by (simp_all add: error_rpc_def)

lemma effect_fields [simp]:
  "sent (send s r h) = sent s @ [r]" "pending (send s r h) = pending s @ [h]"
  "called (call s c) = called s @ [c]"
  "errors (error_rpc s e) = errors s @ [e]"
  "errors (error_text s t) = errors s @ [RPCError 0 (qstr ''API_ERROR: '' @ t)]"
  by (simp_all add: send_def call_def error_text_def error_rpc_def)

lemma still_refl [simp]: "still s s"
  by (simp add: still_def)

lemma still_trans: "still s s1 \<Longrightarrow> still s1 s2 \<Longrightarrow> still s s2"
  by (simp add: still_def)

lemma still_loads: "still s s' \<Longrightarrow> loads s s'"
  by (simp add: still_def loads_def requests_bounded_def)

lemma loads_still: "loads s s1 \<Longrightarrow> still s1 s2 \<Longrightarrow> loads s s2"
  by (simp add: still_def loads_def requests_bounded_def)

lemma still_then_loads: "still s s1 \<Longrightarrow> loads s1 s2 \<Longrightarrow> loads s s2"
  by (simp add: still_def loads_def requests_bounded_def)

lemma still_left [simp]:
  "still (send s r h) s' = still s s'" "still (call s c) s' = still s s'"
  "still (error_text s t) s' = still s s'" "still (error_rpc s e) s' = still s s'"
  "still (s\<lparr> userpicsProcess := up \<rparr>) s' = still s s'"
  "still (s\<lparr> dialogsProcess := dp \<rparr>) s' = still s s'"
  "still (s\<lparr> settings := st \<rparr>) s' = still s s'" "still (s\<lparr> takeoutId := tk \<rparr>) s' = still s s'"
  "still (s\<lparr> pending := pd \<rparr>) s' = still s s'" "still (s\<lparr> fileCache := fc \<rparr>) s' = still s s'"
  by (simp_all add: still_def send_def call_def error_text_def error_rpc_def)

lemma still_right [simp]:
  "still s (send s' r h) = still s s'" "still s (call s' c) = still s s'"
  "still s (error_text s' t) = still s s'" "still s (error_rpc s' e) = still s s'"
  "still s (s'\<lparr> userpicsProcess := up \<rparr>) = still s s'"
  "still s (s'\<lparr> dialogsProcess := dp \<rparr>) = still s s'"
  "still s (s'\<lparr> settings := st \<rparr>) = still s s'" "still s (s'\<lparr> takeoutId := tk \<rparr>) = still s s'"
  "still s (s'\<lparr> pending := pd \<rparr>) = still s s'" "still s (s'\<lparr> fileCache := fc \<rparr>) = still s s'"
  by (simp_all add: still_def send_def call_def error_text_def error_rpc_def)

lemma loads_right [simp]:
  "loads s (send s' r h) = loads s s'" "loads s (call s' c) = loads s s'"
  "loads s (error_text s' t) = loads s s'" "loads s (error_rpc s' e) = loads s s'"
  "loads s (s'\<lparr> userpicsProcess := up \<rparr>) = loads s s'"
  "loads s (s'\<lparr> dialogsProcess := dp \<rparr>) = loads s s'"
  "loads s (s'\<lparr> settings := st \<rparr>) = loads s s'" "loads s (s'\<lparr> takeoutId := tk \<rparr>) = loads s s'"
  "loads s (s'\<lparr> pending := pd \<rparr>) = loads s s'" "loads s (s'\<lparr> fileCache := fc \<rparr>) = loads s s'"
  by (simp_all add: loads_def requests_bounded_def send_def call_def error_text_def error_rpc_def)

lemma loads_left [simp]:
  "loads (send s r h) s' = loads s s'" "loads (call s c) s' = loads s s'"
  "loads (error_text s t) s' = loads s s'" "loads (error_rpc s e) s' = loads s s'"
  "loads (s\<lparr> userpicsProcess := up \<rparr>) s' = loads s s'"
  "loads (s\<lparr> dialogsProcess := dp \<rparr>) s' = loads s s'"
  "loads (s\<lparr> settings := st \<rparr>) s' = loads s s'" "loads (s\<lparr> takeoutId := tk \<rparr>) s' = loads s s'"
  "loads (s\<lparr> pending := pd \<rparr>) s' = loads s s'" "loads (s\<lparr> fileCache := fc \<rparr>) s' = loads s s'"
  by (simp_all add: loads_def requests_bounded_def send_def call_def error_text_def error_rpc_def)

lemma mainRequest_still: "mainRequest s r h = Inr s' \<Longrightarrow> still s s'"
  by (auto simp: mainRequest_def split: if_splits)

lemma fileRequest_still: "fileRequest s l off = Inr s' \<Longrightarrow> still s s'"
  by (auto simp: fileRequest_def split: if_splits)

lemma finishUserpics_still: "finishUserpics s = Inr s' \<Longrightarrow> still s s'"
  by (auto simp: finishUserpics_def split: if_splits)

lemma requestMessagesSlice_still: "requestMessagesSlice s = Inr s' \<Longrightarrow> still s s'"
  by (auto simp: requestMessagesSlice_def and_then_Inr split: option.splits if_splits
           dest: mainRequest_still)

lemma finishDialogs_still: "finishDialogs s = Inr s' \<Longrightarrow> still s s'"
  by (auto simp: finishDialogs_def split: option.splits if_splits)

lemma requestNextDialog_still: "requestNextDialog s = Inr s' \<Longrightarrow> still s s'"
  by (auto simp: requestNextDialog_def Let_def split: option.splits if_splits
           dest!: requestMessagesSlice_still finishDialogs_still)

lemma finishMessages_still: "finishMessages s = Inr s' \<Longrightarrow> still s s'"
  by (auto simp: finishMessages_def split: option.splits if_splits dest!: requestNextDialog_still)

lemma fillDialogsPaths_still: "fillDialogsPaths s = Inr s' \<Longrightarrow> still s s'"
  by (auto simp: fillDialogsPaths_def split: option.splits)

lemma finishDialogsList_still: "finishDialogsList s = Inr s' \<Longrightarrow> still s s'"
  by (auto simp: finishDialogsList_def and_then_Inr split: option.splits
           dest!: fillDialogsPaths_still requestNextDialog_still)
     (blast intro: still_trans)

lemma appendDialogsSlice_still: "appendDialogsSlice s info = Inr s' \<Longrightarrow> still s s'"
  by (auto simp: appendDialogsSlice_def Let_def split: option.splits)

lemma requestDialogsSlice_still: "requestDialogsSlice s = Inr s' \<Longrightarrow> still s s'"
  by (auto simp: requestDialogsSlice_def split: option.splits dest!: mainRequest_still)

lemma requestDialogs_still: "requestDialogs s = Inr s' \<Longrightarrow> still s s'"
  by (auto simp: requestDialogs_def split: if_splits dest!: requestDialogsSlice_still)

lemma dialogsDone_still: "dialogsDone s result = Inr s' \<Longrightarrow> still s s'"
  by (auto simp: dialogsDone_def Let_def and_then_Inr split: MTPmessages_Dialogs.splits option.splits if_splits
           dest!: finishDialogsList_still appendDialogsSlice_still requestDialogsSlice_still)
     (blast intro: still_trans)

lemma requestUserpics_still: "requestUserpics s = Inr s' \<Longrightarrow> still s s'"
  by (auto simp: requestUserpics_def split: if_splits dest!: mainRequest_still)

lemma startExport_still: "startExport s st = Inr s' \<Longrightarrow> still s s'"
  by (auto simp: startExport_def startMainSession_def split: if_splits option.splits)

lemma loadFilePart_Inr:
  assumes "loadFilePart s = Inr s'"
  shows "disk s' = disk s \<and> unwritable s' = unwritable s
       \<and> (case fileProcess s of
             None \<Rightarrow> s' = s
           | Some p \<Rightarrow> (s' = s \<and> (length (fp_requests p) \<ge> kFileRequestsCount \<or> (fp_size p > 0 \<and> fp_offset p \<ge> fp_size p)))
               \<or> (length (fp_requests p) < kFileRequestsCount \<and> \<not> (fp_size p > 0 \<and> fp_offset p \<ge> fp_size p)
                  \<and> s' = (send s (MTPupload_GetFile (fp_location p) (fp_offset p)) (H_FilePart (fp_offset p)))
                           \<lparr> fileProcess := Some (p\<lparr> fp_requests := fp_requests p @ [placeholder (fp_offset p)],
                                             fp_offset := int_add (fp_offset p) kFileChunkSize \<rparr>) \<rparr>))"
  using assms
  by (auto simp: loadFilePart_def Let_def and_then_Inr send_def fileRequest_def placeholder_def
           split: option.splits if_splits)

lemma loadFilePart_loads: "loadFilePart s = Inr s' \<Longrightarrow> loads s s'"
  by (drule loadFilePart_Inr)
     (auto simp: loads_def requests_bounded_def kFileRequestsCount_def split: option.splits)

lemma loadFile_loads: "loadFile s file done = Inr s' \<Longrightarrow> loads s s'"
  by (auto simp: loadFile_def and_then_Inr prepareFileProcess_def Let_def
           split: if_splits option.splits dest!: loadFilePart_Inr)
     (auto simp: loads_def requests_bounded_def kFileRequestsCount_def send_def)

lemma writePreloadedFile_Inr:
  assumes "writePreloadedFile s file = Inr (r, file', s')"
  shows "fileProcess s' = fileProcess s \<and> unwritable s' = unwritable s
         \<and> settings s' = settings s
         \<and> (fileProcess s = None \<longrightarrow> disk s' = disk s)"
  using assms
  by (auto simp: writePreloadedFile_def and_then_Inr prepareFileProcess_def Let_def writeBlock_def
           split: if_splits option.splits prod.splits WriteResult.splits)

lemma processFileLoad_loads:
  assumes "processFileLoad s file done message = Inr (r, file', s')"
  shows "loads s s' \<and> (r \<longrightarrow> fileProcess s' = fileProcess s)
         \<and> userpicsProcess s' = userpicsProcess s \<and> dialogsProcess s' = dialogsProcess s"
proof -
  have w: "loads s s1 \<and> fileProcess s1 = fileProcess s"
    if "writePreloadedFile s file = Inr (r1, f1, s1)" for r1 f1 s1
    using writePreloadedFile_Inr[OF that] by (simp add: loads_def requests_bounded_def)
  have u: "userpicsProcess s1 = userpicsProcess s \<and> dialogsProcess s1 = dialogsProcess s"
    if "writePreloadedFile s file = Inr (r1, f1, s1)" for r1 f1 s1
    using that
    by (auto simp: writePreloadedFile_def and_then_Inr prepareFileProcess_def Let_def writeBlock_def
             error_text_def error_rpc_def
           split: if_splits option.splits prod.splits WriteResult.splits)
  have lf: "userpicsProcess s2 = userpicsProcess s1 \<and> dialogsProcess s2 = dialogsProcess s1"
    if "loadFile s1 f d = Inr s2" for s1 s2 f d
    using that
    by (auto simp: loadFile_def and_then_Inr prepareFileProcess_def Let_def loadFilePart_def
                   fileRequest_def send_def
             split: if_splits option.splits)
  show ?thesis
    using assms
    apply (simp add: processFileLoad_def and_then_Inr split: if_splits)
      apply (auto simp: still_loads)[2]
    apply (clarsimp split: if_splits option.splits simp: and_then_Inr)
    using w u lf loadFile_loads
       apply (auto simp: loads_def requests_bounded_def)
    done
qed

lemma loads_refl [simp]: "loads s s"
  by (simp add: loads_def)

lemma loads_trans_same:
  "loads a b \<Longrightarrow> fileProcess b = fileProcess a \<Longrightarrow> loads b c \<Longrightarrow> loads a c"
  by (simp add: loads_def requests_bounded_def)

lemma loadNextUserpic_loop_loads:
  "loadNextUserpic_loop s = Inr (r, s') \<Longrightarrow> loads s s' \<and> (r \<longrightarrow> fileProcess s' = fileProcess s)"
proof (induction s arbitrary: r s' rule: loadNextUserpic_loop.induct)
  case (1 s)
  from "1.prems" obtain up sl where up: "userpicsProcess s = Some up" "up_slice up = Some sl"
    by (auto simp: loadNextUserpic_loop.simps[of s] split: option.splits)
  let ?index = "up_fileIndex up + 1"
  let ?up1 = "up\<lparr> up_fileIndex := ?index \<rparr>"
  let ?s1 = "s\<lparr> userpicsProcess := Some ?up1 \<rparr>"
  show ?case
  proof (cases "?index < 0 \<or> nat ?index \<ge> length (us_list sl)")
    case True
    with "1.prems" up have "r" "s' = ?s1"
      by (auto simp: loadNextUserpic_loop.simps[of s] Let_def)
    then show ?thesis by simp
  next
    case False
    with "1.prems" up obtain ready file1 s2 where
      p: "processFileLoad ?s1 (img_file (photo_image (us_list sl ! nat ?index))) DoneUserpic None
            = Inr (ready, file1, s2)"
      by (auto simp: loadNextUserpic_loop.simps[of s] Let_def split: sum.splits)
    let ?s3 = "s2\<lparr> userpicsProcess := Some (set_userpic_file ?up1 (nat ?index) file1) \<rparr>"
    from processFileLoad_loads[OF p] have l: "loads s s2" "ready \<longrightarrow> fileProcess s2 = fileProcess s"
      by simp_all
    show ?thesis
    proof (cases ready)
      case False
      with "1.prems" up p \<open>\<not> (?index < 0 \<or> nat ?index \<ge> length (us_list sl))\<close>
      have "\<not> r" "s' = ?s3"
        by (auto simp: loadNextUserpic_loop.simps[of s] Let_def)
      with l show ?thesis by simp
    next
      case True
      with "1.prems" up p \<open>\<not> (?index < 0 \<or> nat ?index \<ge> length (us_list sl))\<close>
      have rec: "loadNextUserpic_loop ?s3 = Inr (r, s')"
        by (auto simp: loadNextUserpic_loop.simps[of s] Let_def)
      have nn: "\<not> \<not> ready" using True by simp
      have ih: "loads ?s3 s' \<and> (r \<longrightarrow> fileProcess s' = fileProcess ?s3)"
        by (rule "1.IH"[OF up(1) up(2) refl refl refl
                       \<open>\<not> (?index < 0 \<or> nat ?index \<ge> length (us_list sl))\<close>
                       p refl refl refl nn rec])
      from l True ih show ?thesis
        by (auto intro: loads_trans_same[of s s2 s'])
    qed
  qed
qed

lemma loadNextMessageFile_loop_loads:
  "loadNextMessageFile_loop s = Inr (r, s') \<Longrightarrow> loads s s' \<and> (r \<longrightarrow> fileProcess s' = fileProcess s)"
proof (induction s arbitrary: r s' rule: loadNextMessageFile_loop.induct)
  case (1 s)
  from "1.prems" obtain dp process sl where
    dp: "dialogsProcess s = Some dp" "dp_single dp = Some process" "sg_slice process = Some sl"
    by (auto simp: loadNextMessageFile_loop.simps[of s] split: option.splits)
  let ?index = "sg_fileIndex process + 1"
  let ?process1 = "process\<lparr> sg_fileIndex := ?index \<rparr>"
  let ?s1 = "s\<lparr> dialogsProcess := Some (dp\<lparr> dp_single := Some ?process1 \<rparr>) \<rparr>"
  show ?case
  proof (cases "?index < 0 \<or> nat ?index \<ge> length (ml_list sl)")
    case True
    with "1.prems" dp have "r" "s' = ?s1"
      by (auto simp: loadNextMessageFile_loop.simps[of s] Let_def)
    then show ?thesis by simp
  next
    case False
    with "1.prems" dp obtain ready file1 s2 where
      p: "processFileLoad ?s1 (msg_file (ml_list sl ! nat ?index)) DoneMessageFile None
            = Inr (ready, file1, s2)"
      by (auto simp: loadNextMessageFile_loop.simps[of s] Let_def split: sum.splits)
    let ?s3 = "s2\<lparr> dialogsProcess :=
                   Some (dp\<lparr> dp_single := Some (set_message_file ?process1 (nat ?index) file1) \<rparr>) \<rparr>"
    from processFileLoad_loads[OF p] have l: "loads s s2" "ready \<longrightarrow> fileProcess s2 = fileProcess s"
      by simp_all
    show ?thesis
    proof (cases ready)
      case False
      with "1.prems" dp p \<open>\<not> (?index < 0 \<or> nat ?index \<ge> length (ml_list sl))\<close>
      have "\<not> r" "s' = ?s3"
        by (auto simp: loadNextMessageFile_loop.simps[of s] Let_def)
      with l show ?thesis by simp
    next
      case True
      with "1.prems" dp p \<open>\<not> (?index < 0 \<or> nat ?index \<ge> length (ml_list sl))\<close>
      have rec: "loadNextMessageFile_loop ?s3 = Inr (r, s')"
        by (auto simp: loadNextMessageFile_loop.simps[of s] Let_def)
      have nn: "\<not> \<not> ready" using True by simp
      have ih: "loads ?s3 s' \<and> (r \<longrightarrow> fileProcess s' = fileProcess ?s3)"
        by (rule "1.IH"[OF dp(1) dp(2) dp(3) refl refl refl
                       \<open>\<not> (?index < 0 \<or> nat ?index \<ge> length (ml_list sl))\<close>
                       p refl refl refl nn rec])
      from l True ih show ?thesis
        by (auto intro: loads_trans_same[of s s2 s'])
    qed
  qed
qed

lemma loadNextUserpic_loads: "loadNextUserpic s = Inr s' \<Longrightarrow> loads s s'"
  by (auto simp: loadNextUserpic_def and_then_Inr Let_def
           split: if_splits option.splits
           dest!: loadNextUserpic_loop_loads finishUserpics_still mainRequest_still)
     (auto intro: loads_still)

lemma loadUserpicDone_loads: "loadUserpicDone s path = Inr s' \<Longrightarrow> loads s s'"
  by (auto simp: loadUserpicDone_def Let_def split: if_splits option.splits
           dest!: loadNextUserpic_loads)

lemma loadUserpicsFiles_loads: "loadUserpicsFiles s parsed = Inr s' \<Longrightarrow> loads s s'"
  by (auto simp: loadUserpicsFiles_def Let_def split: if_splits option.splits
           dest!: loadNextUserpic_loads)

lemma handleUserpicsSlice_loads: "handleUserpicsSlice s result = Inr s' \<Longrightarrow> loads s s'"
  by (auto simp: handleUserpicsSlice_def split: option.splits MTPphotos_Photos.splits
           dest!: loadUserpicsFiles_loads)

lemma userpicsFirstDone_loads: "userpicsFirstDone s result = Inr s' \<Longrightarrow> loads s s'"
  by (auto simp: userpicsFirstDone_def Let_def split: if_splits
           dest!: handleUserpicsSlice_loads)

lemma loadNextMessageFile_loads: "loadNextMessageFile s = Inr s' \<Longrightarrow> loads s s'"
  by (auto simp: loadNextMessageFile_def and_then_Inr Let_def
           split: if_splits option.splits
           dest!: loadNextMessageFile_loop_loads finishMessages_still requestMessagesSlice_still)
     (auto intro: loads_still)

lemma loadMessageFileDone_loads: "loadMessageFileDone s path = Inr s' \<Longrightarrow> loads s s'"
  by (auto simp: loadMessageFileDone_def Let_def split: if_splits option.splits
           dest!: loadNextMessageFile_loads)

lemma loadMessagesFiles_loads: "loadMessagesFiles s parsed = Inr s' \<Longrightarrow> loads s s'"
  by (auto simp: loadMessagesFiles_def Let_def split: if_splits option.splits
           dest!: loadNextMessageFile_loads)

lemma messagesDone_loads: "messagesDone s result = Inr s' \<Longrightarrow> loads s s'"
  by (auto simp: messagesDone_def split: option.splits MTPmessages_Messages.splits
           dest!: loadMessagesFiles_loads)

lemma invoke_done_loads: "invoke_done s done path = Inr s' \<Longrightarrow> loads s s'"
  by (auto simp: invoke_done_def split: DoneCallback.splits
           dest!: loadUserpicDone_loads loadMessageFileDone_loads)

lemma fileProcessDone_Inr:
  "fileProcessDone s p = Inr s' \<Longrightarrow>
   unwritable s' = unwritable s \<and> disk s' = disk s \<and> requests_bounded s'"
  by (auto simp: fileProcessDone_def dest!: invoke_done_loads)
     (auto simp: loads_def requests_bounded_def)

lemma fill_request_length: "fill_request rs off b = Some rs' \<Longrightarrow> length rs' = length rs"
  by (induction rs arbitrary: rs') (auto split: if_splits)

lemma write_ready_Inr:
  "write_ready s file1 rs = (ok, s1, rs1) \<Longrightarrow>
   length rs1 \<le> length rs \<and> s1 = s\<lparr> disk := disk s1 \<rparr>"
proof (induction rs arbitrary: s)
  case Nil
  then show ?case by simp
next
  case (Cons r rs)
  show ?case
  proof (cases "rq_bytes r = []")
    case True
    with Cons.prems show ?thesis by simp
  next
    case False
    show ?thesis
    proof (cases "file1 \<in> unwritable s")
      case True
      with Cons.prems False show ?thesis by (simp add: writeBlock_def)
    next
      case nw: False
      let ?s = "s\<lparr> disk := (disk s)(file1 := disk s file1 @ rq_bytes r) \<rparr>"
      from Cons.prems False nw have "write_ready ?s file1 rs = (ok, s1, rs1)"
        by (simp add: writeBlock_def)
      from Cons.IH[OF this] show ?thesis by simp
    qed
  qed
qed

lemma write_ready_fields:
  assumes "write_ready s file1 rs = (ok, s1, rs1)"
  shows "unwritable s1 = unwritable s" "fileProcess s1 = fileProcess s" "sent s1 = sent s"
    "pending s1 = pending s" "errors s1 = errors s" "called s1 = called s"
    "fileCache s1 = fileCache s" "settings s1 = settings s" "takeoutId s1 = takeoutId s"
    "userpicsProcess s1 = userpicsProcess s" "dialogsProcess s1 = dialogsProcess s"
proof -
  from write_ready_Inr[OF assms] have e: "s1 = s\<lparr> disk := disk s1 \<rparr>" by simp
  show "unwritable s1 = unwritable s" "fileProcess s1 = fileProcess s" "sent s1 = sent s"
    "pending s1 = pending s" "errors s1 = errors s" "called s1 = called s"
    "fileCache s1 = fileCache s" "settings s1 = settings s" "takeoutId s1 = takeoutId s"
    "userpicsProcess s1 = userpicsProcess s" "dialogsProcess s1 = dialogsProcess s"
    by (subst e, simp)+
qed

lemma disk_update_eq: "(s\<lparr> disk := f \<rparr> = s\<lparr> disk := g \<rparr>) = (f = g)"
  by (auto dest: arg_cong[where f = disk])

lemma bounded_updates [simp]:
  "requests_bounded (send s r h) = requests_bounded s"
  "requests_bounded (call s c) = requests_bounded s"
  "requests_bounded (error_text s t) = requests_bounded s"
  "requests_bounded (error_rpc s e) = requests_bounded s"
  "requests_bounded (s\<lparr> takeoutId := tk \<rparr>) = requests_bounded s"
  "requests_bounded (s\<lparr> pending := pd \<rparr>) = requests_bounded s"
  by (simp_all add: requests_bounded_def)

lemma write_ready_writable:
  "file1 \<notin> unwritable s \<Longrightarrow>
   write_ready s file1 rs =
     (True,
      s\<lparr> disk := (disk s)(file1 := disk s file1
                      @ concat (map rq_bytes (takeWhile (\<lambda>r. rq_bytes r \<noteq> []) rs))) \<rparr>,
      dropWhile (\<lambda>r. rq_bytes r \<noteq> []) rs)"
proof (induction rs arbitrary: s)
  case Nil
  then show ?case by simp
next
  case (Cons r rs)
  show ?case
  proof (cases "rq_bytes r = []")
    case True
    then show ?thesis by simp
  next
    case False
    let ?s = "s\<lparr> disk := (disk s)(file1 := disk s file1 @ rq_bytes r) \<rparr>"
    have "file1 \<notin> unwritable ?s" using Cons.prems by simp
    from Cons.IH[OF this] False Cons.prems show ?thesis
      by (simp add: writeBlock_def disk_update_eq fun_eq_iff)
  qed
qed

lemma filePartDone_bounded:
  assumes "requests_bounded s" "filePartDone s off result = Inr s'"
  shows "requests_bounded s' \<and> unwritable s' = unwritable s"
proof -
  from assms(2) obtain p where p: "fileProcess s = Some p" "fp_requests p \<noteq> []"
    by (auto simp: filePartDone_def split: option.splits if_splits)
  from assms(1) p have len: "length (fp_requests p) \<le> kFileRequestsCount"
    by (simp add: requests_bounded_def)
  show ?thesis
  proof (cases result)
    case MTPupload_fileCdnRedirect
    with assms p show ?thesis by (auto simp: filePartDone_def requests_bounded_def)
  next
    case (MTPupload_file bytes)
    show ?thesis
    proof (cases "bytes = []")
      case True
      with assms p MTPupload_file show ?thesis
        by (auto simp: filePartDone_def requests_bounded_def split: if_splits
                 dest!: fileProcessDone_Inr)
    next
      case False
      with assms(2) p MTPupload_file obtain requests where
        f: "fill_request (fp_requests p) off bytes = Some requests"
        by (auto simp: filePartDone_def split: option.splits)
      obtain ok s1 requests1 where w: "write_ready s (fp_file p) requests = (ok, s1, requests1)"
        by (cases "write_ready s (fp_file p) requests") auto
      from write_ready_Inr[OF w] fill_request_length[OF f] len
      have len1: "length requests1 \<le> kFileRequestsCount" by simp
      note wf = write_ready_fields[OF w]
      let ?p1 = "p\<lparr> fp_requests := requests1 \<rparr>"
      let ?s2 = "s1\<lparr> fileProcess := Some ?p1 \<rparr>"
      have b2: "requests_bounded ?s2" using len1 by (simp add: requests_bounded_def)
      show ?thesis
      proof (cases ok)
        case False
        with assms(2) p MTPupload_file \<open>bytes \<noteq> []\<close> f w
        have "s' = error_text ?s2 (qstr ''Could not write bytes to '' @ [0x27]
                                  @ fp_relativePath p @ [0x27] @ qstr ''.'')"
          by (simp add: filePartDone_def)
        with b2 wf show ?thesis by (simp add: requests_bounded_def)
      next
        case True
        with assms(2) p MTPupload_file \<open>bytes \<noteq> []\<close> f w
        have "loadFilePart ?s2 = Inr s' \<or> fileProcessDone ?s2 ?p1 = Inr s'"
          by (auto simp: filePartDone_def Let_def split: if_splits)
        then show ?thesis
        proof
          assume "loadFilePart ?s2 = Inr s'"
          from loadFilePart_loads[OF this] b2 wf show ?thesis by (simp add: loads_def)
        next
          assume "fileProcessDone ?s2 ?p1 = Inr s'"
          from fileProcessDone_Inr[OF this] wf show ?thesis by simp
        qed
      qed
    qed
  qed
qed

lemma handle_bounded:
  assumes "requests_bounded s" "handle s h r = Some (Inr s')"
  shows "requests_bounded s'"
proof -
  have l: "loads s s' \<Longrightarrow> requests_bounded s'" using assms(1) by (simp add: loads_def)
  have st: "still s s' \<Longrightarrow> requests_bounded s'" using assms(1) by (simp add: still_def requests_bounded_def)
  from assms(2) show ?thesis
    by (cases "(s, h, r)" rule: handle.cases)
       (auto dest!: userpicsFirstDone_loads handleUserpicsSlice_loads dialogsDone_still
                    messagesDone_loads filePartDone_bounded[OF assms(1)]
             intro: l st split: if_splits simp: assms(1))
qed

lemma step_bounded:
  assumes "requests_bounded s" "step s e = Some (Inr s')"
  shows "requests_bounded s'"
proof -
  have st: "still s s' \<Longrightarrow> requests_bounded s'"
    using assms(1) by (simp add: still_def requests_bounded_def)
  show ?thesis
  proof (cases e)
    case (Done h r)
    with assms(2) have "handle (s\<lparr> pending := remove1 h (pending s) \<rparr>) h r = Some (Inr s')"
      by (simp add: step_def split: if_splits)
    from handle_bounded[OF _ this] assms(1) show ?thesis by simp
  next
    case (Fail h err)
    with assms show ?thesis
      by (auto simp: step_def requests_bounded_def split: if_splits)
  qed (use assms(2) in \<open>auto simp: step_def requestPersonalInfo_def requestContacts_def
          requestSessions_def
        dest!: startExport_still mainRequest_still requestUserpics_still requestDialogs_still
        intro: st\<close>)
qed

lemma reachable_bounded: "reachable s \<Longrightarrow> requests_bounded s"
proof (induction rule: reachable.induct)
  case (reachable_new ro prepare)
  show ?case by (simp add: requests_bounded_def ApiWrap_new_def)
next
  case (reachable_step s e s')
  then show ?case by (blast intro: step_bounded)
qed


section \<open>Runs of events\<close>

lemma run_reachable: "reachable s \<Longrightarrow> run s es = Some (Inr s') \<Longrightarrow> reachable s'"
proof (induction es arbitrary: s)
  case Nil
  then show ?case by simp
next
  case (Cons e es)
  from Cons.prems(2) obtain s1 where s1: "step s e = Some (Inr s1)" "run s1 es = Some (Inr s')"
    by (auto split: option.splits sum.splits)
  from Cons.prems(1) s1(1) have "reachable s1" by (rule reachable_step)
  from Cons.IH[OF this s1(2)] show ?case .
qed

lemma reachable_api0: "reachable api0"
  unfolding api0_def by (rule reachable_new)

lemmas api_eval = api0_def ApiWrap_new_def settings0_def step_def startExport_def
  startMainSession_def send_def call_def mainRequest_def requestUserpics_def requestDialogs_def
  requestDialogsSlice_def

lemma run_two:
  "run api0 events_two_processes = Some (Inr (state_of (run api0 events_two_processes)))
   \<and> userpicsProcess (state_of (run api0 events_two_processes)) \<noteq> None
   \<and> dialogsProcess (state_of (run api0 events_two_processes)) \<noteq> None"
  by (simp add: events_two_processes_def state_of_def api_eval)

lemmas transfer_eval = api_eval userpicsFirstDone_def handleUserpicsSlice_def loadUserpicsFiles_def
  loadNextUserpic_def loadNextUserpic_loop.simps processFileLoad_def writePreloadedFile_def
  loadFile_def loadFilePart_def fileRequest_def prepareFileProcess_def photo0_def file0_def
  File_default_def locA_def location_valid_def cache_find_def ComputeLocationKey_def mediaType_def
  kLocationCacheSize_def kFileRequestsCount_def kFileChunkSize_def set_userpic_file_def Let_def

lemma run_transfer:
  "run api0 events_transfer = Some (Inr (state_of (run api0 events_transfer)))
   \<and> userpicsProcess (state_of (run api0 events_transfer)) \<noteq> None
   \<and> dialogsProcess (state_of (run api0 events_transfer)) \<noteq> None
   \<and> map_option fp_requests (fileProcess (state_of (run api0 events_transfer))) = Some [placeholder 0]"
  by (simp add: events_transfer_def state_of_def transfer_eval placeholder_def)

lemma run_transfer_file:
  "map_option fp_size (fileProcess (state_of (run api0 events_transfer))) = Some 5
   \<and> H_FilePart 0 \<in> set (pending (state_of (run api0 events_transfer)))
   \<and> errors (state_of (run api0 events_transfer)) = []
   \<and> sent (state_of (run api0 events_transfer)) \<noteq> []
   \<and> last (sent (state_of (run api0 events_transfer))) = MTPupload_GetFile locA 0"
  by (simp add: events_transfer_def state_of_def transfer_eval placeholder_def)

section \<open>Chunks that arrive out of order\<close>

lemma slot_simps [simp]: "rq_offset (slot D c) = fst c"
  "rq_bytes (slot D c) = (if fst c \<in> D then snd c else [])"
  by (simp_all add: slot_def)

lemma slot_insert_other: "fst c \<noteq> off \<Longrightarrow> slot (insert off D) c = slot D c"
  by (simp add: slot_def)

lemma fill_request_slots:
  "distinct (map fst C) \<Longrightarrow> (off, b) \<in> set C \<Longrightarrow>
   fill_request (map (slot D) C @ E) off b = Some (map (slot (insert off D)) C @ E)"
proof (induction C)
  case Nil
  then show ?case by simp
next
  case (Cons c C)
  show ?case
  proof (cases "fst c = off")
    case True
    with Cons.prems have c: "c = (off, b)" by (cases c) force
    from Cons.prems True have "off \<notin> fst ` set C" by simp
    then have "\<forall>x \<in> set C. fst x \<noteq> off" by blast
    then have "map (slot (insert off D)) C = map (slot D) C"
      by (intro map_cong) (auto simp: slot_insert_other)
    with c show ?thesis by (simp add: slot_def)
  next
    case False
    with Cons.prems have "(off, b) \<in> set C" "distinct (map fst C)" by auto
    from Cons.IH[OF this(2,1)] False show ?thesis
      by (simp add: slot_insert_other)
  qed
qed

lemma takeWhile_slots:
  assumes "\<forall>c \<in> set C. snd c \<noteq> []" "\<forall>e \<in> set E. rq_bytes e = []"
  shows "takeWhile (\<lambda>r. rq_bytes r \<noteq> []) (map (slot D) C @ E)
           = map (slot D) (takeWhile (\<lambda>c. fst c \<in> D) C)"
    and "dropWhile (\<lambda>r. rq_bytes r \<noteq> []) (map (slot D) C @ E)
           = map (slot D) (dropWhile (\<lambda>c. fst c \<in> D) C) @ E"
  using assms
proof (induction C)
  case Nil
  {
    case 1
    then show ?case by (cases E) simp_all
  next
    case 2
    then show ?case by (cases E) simp_all
  }
next
  case (Cons c C)
  {
    case 1
    with Cons.IH(1) show ?case by simp
  next
    case 2
    with Cons.IH(2) show ?case by simp
  }
qed

lemma concat_slots:
  "\<forall>c \<in> set W. fst c \<in> D \<Longrightarrow> concat (map rq_bytes (map (slot D) W)) = concat (map snd W)"
  by (induction W) simp_all

lemma filePartDone_chunk_unfold:
  assumes inv: "transfer_inv s file1 C D" and c: "(off, b) \<in> set C"
  obtains p E where
    "fileProcess s = Some p" "fp_file p = file1" "file1 \<notin> unwritable s"
    "fp_requests p = map (slot D) C @ E" "\<forall>e \<in> set E. rq_bytes e = []"
    "filePartDone s off (MTPupload_file b) =
       (let W = takeWhile (\<lambda>c. fst c \<in> insert off D) C;
            C' = dropWhile (\<lambda>c. fst c \<in> insert off D) C;
            p1 = p\<lparr> fp_requests := map (slot (insert off D)) C' @ E \<rparr>;
            s2 = s\<lparr> disk := (disk s)(file1 := disk s file1 @ concat (map snd W)),
                    fileProcess := Some p1 \<rparr>
        in if C' \<noteq> [] \<or> E \<noteq> [] \<or> fp_size p = 0 \<or> fp_size p > fp_offset p
           then loadFilePart s2 else fileProcessDone s2 p1)"
proof -
  from inv obtain p E where p: "fileProcess s = Some p" "fp_file p = file1" "file1 \<notin> unwritable s"
    "fp_requests p = map (slot D) C @ E" "\<forall>e \<in> set E. rq_bytes e = []"
    "distinct (map fst C)" "\<forall>c \<in> set C. snd c \<noteq> []"
    unfolding transfer_inv_def by blast
  let ?D = "insert off D"
  let ?W = "takeWhile (\<lambda>c. fst c \<in> ?D) C"
  let ?C = "dropWhile (\<lambda>c. fst c \<in> ?D) C"
  from c p(7) have b: "b \<noteq> []" by force
  from c p(4) have ne: "fp_requests p \<noteq> []" by auto
  have f: "fill_request (fp_requests p) off b = Some (map (slot ?D) C @ E)"
    unfolding p(4) by (rule fill_request_slots[OF p(6) c])
  have "\<forall>c \<in> set ?W. fst c \<in> ?D" by (auto dest: set_takeWhileD)
  then have cc: "concat (map rq_bytes (map (slot ?D) ?W)) = concat (map snd ?W)"
    by (rule concat_slots)
  have w: "write_ready s file1 (map (slot ?D) C @ E) =
       (True, s\<lparr> disk := (disk s)(file1 := disk s file1 @ concat (map snd ?W)) \<rparr>,
        map (slot ?D) ?C @ E)"
    unfolding write_ready_writable[OF p(3)] takeWhile_slots[OF p(7) p(5)] cc ..
  have "filePartDone s off (MTPupload_file b) =
       (let W = ?W; C' = ?C;
            p1 = p\<lparr> fp_requests := map (slot ?D) C' @ E \<rparr>;
            s2 = s\<lparr> disk := (disk s)(file1 := disk s file1 @ concat (map snd W)),
                    fileProcess := Some p1 \<rparr>
        in if C' \<noteq> [] \<or> E \<noteq> [] \<or> fp_size p = 0 \<or> fp_size p > fp_offset p
           then loadFilePart s2 else fileProcessDone s2 p1)"
    using p(1,2) ne b f w by (simp add: filePartDone_def Let_def)
  with p(1-5) show ?thesis by (rule that)
qed

lemma transfer_inv_dropWhile:
  assumes "distinct (map fst C)" "\<forall>c \<in> set C. snd c \<noteq> []"
  shows "distinct (map fst (dropWhile P C)) \<and> (\<forall>c \<in> set (dropWhile P C). snd c \<noteq> [])
         \<and> (dropWhile P C \<noteq> [] \<longrightarrow> \<not> P (hd (dropWhile P C)))"
proof -
  have "distinct (map fst (takeWhile P C @ dropWhile P C))" using assms(1) by simp
  then have "distinct (map fst (dropWhile P C))" by (simp only: map_append distinct_append)
  moreover have "\<forall>c \<in> set (dropWhile P C). snd c \<noteq> []"
    using assms(2) by (auto dest: set_dropWhileD)
  moreover have "dropWhile P C \<noteq> [] \<longrightarrow> \<not> P (hd (dropWhile P C))"
    by (simp add: hd_dropWhile)
  ultimately show ?thesis by blast
qed

lemma filePartDone_chunk:
  assumes inv: "transfer_inv s file1 C D" and c: "(off, b) \<in> set C"
    and r: "filePartDone s off (MTPupload_file b) = Inr s'"
  shows "disk s' file1 = disk s file1 @ concat (map snd (takeWhile (\<lambda>c. fst c \<in> insert off D) C))
       \<and> (transfer_inv s' file1 (dropWhile (\<lambda>c. fst c \<in> insert off D) C) (insert off D)
          \<or> dropWhile (\<lambda>c. fst c \<in> insert off D) C = [])"
proof -
  let ?D = "insert off D"
  let ?W = "takeWhile (\<lambda>c. fst c \<in> ?D) C"
  let ?C = "dropWhile (\<lambda>c. fst c \<in> ?D) C"
  from inv have dc: "distinct (map fst C)" "\<forall>c \<in> set C. snd c \<noteq> []"
    unfolding transfer_inv_def by blast+
  note dw = transfer_inv_dropWhile[OF dc, of "\<lambda>c. fst c \<in> ?D"]
  from inv c obtain p E where p: "fileProcess s = Some p" "fp_file p = file1" "file1 \<notin> unwritable s"
    "\<forall>e \<in> set E. rq_bytes e = []"
    and u: "filePartDone s off (MTPupload_file b) =
       (let W = ?W; C' = ?C;
            p1 = p\<lparr> fp_requests := map (slot ?D) C' @ E \<rparr>;
            s2 = s\<lparr> disk := (disk s)(file1 := disk s file1 @ concat (map snd W)),
                    fileProcess := Some p1 \<rparr>
        in if C' \<noteq> [] \<or> E \<noteq> [] \<or> fp_size p = 0 \<or> fp_size p > fp_offset p
           then loadFilePart s2 else fileProcessDone s2 p1)"
    by (rule filePartDone_chunk_unfold)
  let ?p1 = "p\<lparr> fp_requests := map (slot ?D) ?C @ E \<rparr>"
  let ?s2 = "s\<lparr> disk := (disk s)(file1 := disk s file1 @ concat (map snd ?W)),
                fileProcess := Some ?p1 \<rparr>"
  have d2: "disk ?s2 file1 = disk s file1 @ concat (map snd ?W)" by simp
  show ?thesis
  proof (cases "?C \<noteq> [] \<or> E \<noteq> [] \<or> fp_size p = 0 \<or> fp_size p > fp_offset p")
    case True
    from u have "filePartDone s off (MTPupload_file b) = loadFilePart ?s2"
      unfolding Let_def by (simp only: True if_True)
    with r have l: "loadFilePart ?s2 = Inr s'" by (simp only:)
    from loadFilePart_Inr[OF l] have
      dk: "disk s' = disk ?s2" and uw: "unwritable s' = unwritable ?s2"
      and fp: "s' = ?s2 \<or> s' = (send ?s2 (MTPupload_GetFile (fp_location ?p1) (fp_offset ?p1))
                                    (H_FilePart (fp_offset ?p1)))
                           \<lparr> fileProcess := Some (?p1\<lparr> fp_requests := fp_requests ?p1 @ [placeholder (fp_offset ?p1)],
                                             fp_offset := int_add (fp_offset ?p1) kFileChunkSize \<rparr>) \<rparr>"
      by auto
    from fp have "\<exists>p' E'. fileProcess s' = Some p' \<and> fp_file p' = file1
        \<and> fp_requests p' = map (slot ?D) ?C @ E' \<and> (\<forall>e \<in> set E'. rq_bytes e = [])"
    proof
      assume "s' = ?s2"
      then have "fileProcess s' = Some ?p1 \<and> fp_file ?p1 = file1
        \<and> fp_requests ?p1 = map (slot ?D) ?C @ E \<and> (\<forall>e \<in> set E. rq_bytes e = [])"
        using p by simp
      then show ?thesis by blast
    next
      let ?p2 = "?p1\<lparr> fp_requests := fp_requests ?p1 @ [placeholder (fp_offset ?p1)],
                      fp_offset := int_add (fp_offset ?p1) kFileChunkSize \<rparr>"
      assume "s' = (send ?s2 (MTPupload_GetFile (fp_location ?p1) (fp_offset ?p1))
                                    (H_FilePart (fp_offset ?p1)))\<lparr> fileProcess := Some ?p2 \<rparr>"
      then have "fileProcess s' = Some ?p2 \<and> fp_file ?p2 = file1
        \<and> fp_requests ?p2 = map (slot ?D) ?C @ (E @ [placeholder (fp_offset ?p1)])
        \<and> (\<forall>e \<in> set (E @ [placeholder (fp_offset ?p1)]). rq_bytes e = [])"
        using p by (simp add: placeholder_def)
      then show ?thesis by blast
    qed
    then have "transfer_inv s' file1 ?C ?D"
      unfolding transfer_inv_def using dw uw p(3) by auto
    with dk d2 show ?thesis by simp
  next
    case False
    from u have "filePartDone s off (MTPupload_file b) = fileProcessDone ?s2 ?p1"
      unfolding Let_def by (simp only: False if_False)
    with r have "fileProcessDone ?s2 ?p1 = Inr s'" by (simp only:)
    from fileProcessDone_Inr[OF this] have "disk s' = disk ?s2" by simp
    with d2 False show ?thesis by simp
  qed
qed

lemma deliver_Cons_Inr:
  "deliver s ((off, b) # ds) = Inr s' \<longleftrightarrow>
     (\<exists>s1. filePartDone s off (MTPupload_file b) = Inr s1 \<and> deliver s1 ds = Inr s')"
  by (simp add: and_then_Inr)

lemma deliver_chunks:
  assumes "transfer_inv s file1 C D" "\<forall>d \<in> set ds. d \<in> set C \<and> fst d \<notin> D"
    "distinct (map fst ds)" "deliver s ds = Inr s'"
  shows "\<exists>W C'. C = W @ C' \<and> fst ` set W \<subseteq> D \<union> fst ` set ds
           \<and> (C' \<noteq> [] \<longrightarrow> fst (hd C') \<notin> D \<union> fst ` set ds)
           \<and> disk s' file1 = disk s file1 @ concat (map snd W)"
  using assms
proof (induction ds arbitrary: s C D)
  case Nil
  then have "C \<noteq> [] \<longrightarrow> fst (hd C) \<notin> D" unfolding transfer_inv_def by blast
  with Nil show ?case by (intro exI[of _ "[]"] exI[of _ C]) auto
next
  case (Cons d ds)
  obtain off b where d: "d = (off, b)" by (cases d)
  from Cons.prems(4) d obtain s1 where
    s1: "filePartDone s off (MTPupload_file b) = Inr s1" "deliver s1 ds = Inr s'"
    by (auto simp: and_then_Inr)
  from Cons.prems(2) d have c: "(off, b) \<in> set C" by simp
  let ?D = "insert off D"
  let ?W = "takeWhile (\<lambda>c. fst c \<in> ?D) C"
  let ?C = "dropWhile (\<lambda>c. fst c \<in> ?D) C"
  from filePartDone_chunk[OF Cons.prems(1) c s1(1)] have
    dk: "disk s1 file1 = disk s file1 @ concat (map snd ?W)"
    and iv: "transfer_inv s1 file1 ?C ?D \<or> ?C = []" by blast+
  have split: "C = ?W @ ?C" by simp
  have w: "fst ` set ?W \<subseteq> ?D" by (auto dest: set_takeWhileD)
  have rest: "\<forall>d' \<in> set ds. d' \<in> set ?C \<and> fst d' \<notin> ?D"
  proof
    fix d' assume m: "d' \<in> set ds"
    with Cons.prems(2) have "d' \<in> set C" "fst d' \<notin> D" by auto
    moreover from m Cons.prems(3) d have "fst d' \<noteq> off" by force
    ultimately have nd: "fst d' \<notin> ?D" by simp
    with w have "d' \<notin> set ?W" by blast
    with \<open>d' \<in> set C\<close> split have "d' \<in> set ?C"
      by (metis Un_iff set_append)
    with nd show "d' \<in> set ?C \<and> fst d' \<notin> ?D" by simp
  qed
  have dist: "distinct (map fst ds)" using Cons.prems(3) by simp
  show ?case
  proof (cases "?C = []")
    case True
    have "d' \<notin> set ds" for d'
    proof
      assume "d' \<in> set ds"
      with rest have "d' \<in> set ?C \<and> fst d' \<notin> ?D" by (rule bspec)
      then have "d' \<in> set ?C" by (rule conjunct1)
      then show False by (simp only: True list.set empty_iff)
    qed
    then have "ds = []" by (cases ds) auto
    with s1(2) have "s' = s1" by simp
    moreover have "C = ?W @ []" using split unfolding True .
    ultimately show ?thesis using dk w d
      by (intro exI[of _ ?W] exI[of _ "[]"]) auto
  next
    case False
    with iv have inv1: "transfer_inv s1 file1 ?C ?D" by blast
    from Cons.IH[OF inv1 rest dist s1(2)] obtain W2 C' where
      r: "?C = W2 @ C'" "fst ` set W2 \<subseteq> ?D \<union> fst ` set ds"
         "C' \<noteq> [] \<longrightarrow> fst (hd C') \<notin> ?D \<union> fst ` set ds"
         "disk s' file1 = disk s1 file1 @ concat (map snd W2)"
      by blast
    have "C = (?W @ W2) @ C'" using split r(1) by (metis append_assoc)
    moreover have "fst ` set (?W @ W2) \<subseteq> D \<union> fst ` set (d # ds)"
      using w r(2) d by auto
    moreover have "C' \<noteq> [] \<longrightarrow> fst (hd C') \<notin> D \<union> fst ` set (d # ds)"
      using r(3) d by auto
    moreover have "disk s' file1 = disk s file1 @ concat (map snd (?W @ W2))"
      using r(4) dk by simp
    ultimately show ?thesis by blast
  qed
qed

lemma deliver_all_chunks:
  assumes "transfer_inv s file1 C {}" "set ds = set C" "distinct (map fst ds)" "deliver s ds = Inr s'"
  shows "disk s' file1 = disk s file1 @ concat (map snd C)"
proof -
  from assms(2) have m: "\<forall>d \<in> set ds. d \<in> set C \<and> fst d \<notin> {}" by simp
  from deliver_chunks[OF assms(1) m assms(3,4)] obtain W C' where
    r: "C = W @ C'" "C' \<noteq> [] \<longrightarrow> fst (hd C') \<notin> {} \<union> fst ` set ds"
       "disk s' file1 = disk s file1 @ concat (map snd W)"
    by blast
  have "C' = []"
  proof (rule ccontr)
    assume ne: "C' \<noteq> []"
    then have "hd C' \<in> set C" using r(1) by (cases C') auto
    with assms(2) have "fst (hd C') \<in> fst ` set ds" by simp
    with r(2) ne show False by simp
  qed
  with r show ?thesis by simp
qed

lemma filePartDone_chunk_continues:
  assumes inv: "transfer_inv s file1 C D" and c: "(off, b) \<in> set C"
    and cc: "can_continue s (length C)"
  shows "\<exists>s'. filePartDone s off (MTPupload_file b) = Inr s'
           \<and> can_continue s' (length (dropWhile (\<lambda>c. fst c \<in> insert off D) C))"
proof -
  let ?D = "insert off D"
  let ?W = "takeWhile (\<lambda>c. fst c \<in> ?D) C"
  let ?C = "dropWhile (\<lambda>c. fst c \<in> ?D) C"
  from inv c obtain p E where p: "fileProcess s = Some p" "fp_file p = file1"
    "fp_requests p = map (slot D) C @ E"
    and u: "filePartDone s off (MTPupload_file b) =
       (let W = ?W; C' = ?C;
            p1 = p\<lparr> fp_requests := map (slot ?D) C' @ E \<rparr>;
            s2 = s\<lparr> disk := (disk s)(file1 := disk s file1 @ concat (map snd W)),
                    fileProcess := Some p1 \<rparr>
        in if C' \<noteq> [] \<or> E \<noteq> [] \<or> fp_size p = 0 \<or> fp_size p > fp_offset p
           then loadFilePart s2 else fileProcessDone s2 p1)"
    by (rule filePartDone_chunk_unfold)
  let ?p1 = "p\<lparr> fp_requests := map (slot ?D) ?C @ E \<rparr>"
  let ?s2 = "s\<lparr> disk := (disk s)(file1 := disk s file1 @ concat (map snd ?W)),
                fileProcess := Some ?p1 \<rparr>"
  from cc p have k: "takeoutId s \<noteq> None" "dcId (fp_location p) \<noteq> 0"
    "E \<noteq> [] \<or> fp_size p = 0 \<or> fp_size p > fp_offset p"
    by (auto simp: can_continue_def)
  then have go: "?C \<noteq> [] \<or> E \<noteq> [] \<or> fp_size p = 0 \<or> fp_size p > fp_offset p" by blast
  from u have e: "filePartDone s off (MTPupload_file b) = loadFilePart ?s2"
    unfolding Let_def by (simp only: go if_True)
  have "\<exists>s'. loadFilePart ?s2 = Inr s' \<and> can_continue s' (length ?C)"
    using k by (auto simp: loadFilePart_def Let_def fileRequest_def can_continue_def send_def)
  with e show ?thesis by simp
qed

lemma deliver_continues:
  assumes "transfer_inv s file1 C D" "\<forall>d \<in> set ds. d \<in> set C \<and> fst d \<notin> D"
    "distinct (map fst ds)" "can_continue s (length C)"
  shows "\<exists>s'. deliver s ds = Inr s'"
  using assms
proof (induction ds arbitrary: s C D)
  case Nil
  show ?case by simp
next
  case (Cons d ds)
  obtain off b where d: "d = (off, b)" by (cases d)
  from Cons.prems(2) d have c: "(off, b) \<in> set C" by simp
  let ?D = "insert off D"
  let ?W = "takeWhile (\<lambda>c. fst c \<in> ?D) C"
  let ?C = "dropWhile (\<lambda>c. fst c \<in> ?D) C"
  from filePartDone_chunk_continues[OF Cons.prems(1) c Cons.prems(4)] obtain s1 where
    s1: "filePartDone s off (MTPupload_file b) = Inr s1" "can_continue s1 (length ?C)"
    by blast
  from filePartDone_chunk[OF Cons.prems(1) c s1(1)] have
    iv: "transfer_inv s1 file1 ?C ?D \<or> ?C = []" by blast
  have split: "C = ?W @ ?C" by simp
  have w: "fst ` set ?W \<subseteq> ?D" by (auto dest: set_takeWhileD)
  have rest: "\<forall>d' \<in> set ds. d' \<in> set ?C \<and> fst d' \<notin> ?D"
  proof
    fix d' assume m: "d' \<in> set ds"
    with Cons.prems(2) have "d' \<in> set C" "fst d' \<notin> D" by auto
    moreover from m Cons.prems(3) d have "fst d' \<noteq> off" by force
    ultimately have nd: "fst d' \<notin> ?D" by simp
    with w have "d' \<notin> set ?W" by blast
    with \<open>d' \<in> set C\<close> split have "d' \<in> set ?C"
      by (metis Un_iff set_append)
    with nd show "d' \<in> set ?C \<and> fst d' \<notin> ?D" by simp
  qed
  have dist: "distinct (map fst ds)" using Cons.prems(3) by simp
  show ?case
  proof (cases "?C = []")
    case True
    have "d' \<notin> set ds" for d'
    proof
      assume "d' \<in> set ds"
      with rest have "d' \<in> set ?C \<and> fst d' \<notin> ?D" by (rule bspec)
      then have "d' \<in> set ?C" by (rule conjunct1)
      then show False by (simp only: True list.set empty_iff)
    qed
    then have "ds = []" by (cases ds) auto
    with s1(1) d show ?thesis by simp
  next
    case False
    with iv have inv1: "transfer_inv s1 file1 ?C ?D" by blast
    from Cons.IH[OF inv1 rest dist s1(2)] obtain s' where "deliver s1 ds = Inr s'" by blast
    with s1(1) d show ?thesis by simp
  qed
qed

lemma chunks3_inv:
  assumes "fileProcess s = Some p"
    and "fp_requests p = [placeholder 0, placeholder kFileChunkSize, placeholder (2 * kFileChunkSize)]"
    and "fp_file p \<notin> unwritable s"
    and "b0 \<noteq> []" "b1 \<noteq> []" "b2 \<noteq> []"
  shows "transfer_inv s (fp_file p) (chunks3 b0 b1 b2) {}"
  unfolding transfer_inv_def
  using assms
  by (intro exI[of _ p] exI[of _ "[]"])
     (simp add: chunks3_def slot_def placeholder_def kFileChunkSize_def)

lemma prefix_written:
  assumes "distinct (map fst C)" "C = W @ C'" "fst ` set W \<subseteq> fst ` set ds" "set ds \<subseteq> set C"
  shows "take (length W) C = W \<and> set W \<subseteq> set ds"
proof -
  have "set W \<subseteq> set ds"
  proof
    fix w assume w: "w \<in> set W"
    with assms(3) obtain d where d: "d \<in> set ds" "fst d = fst w" by force
    with assms(4) have "d \<in> set C" by blast
    moreover from w assms(2) have "w \<in> set C" by simp
    moreover from assms(1) have "inj_on fst (set C)" by (simp add: distinct_map)
    ultimately have "d = w" using d(2) by (blast dest: inj_onD)
    with d(1) show "w \<in> set ds" by simp
  qed
  with assms(2) show ?thesis by simp
qed

lemma chunk1_buffered:
  assumes "fileProcess s = Some p"
    and "fp_requests p = [placeholder 0, placeholder kFileChunkSize, placeholder (2 * kFileChunkSize)]"
    and "fp_file p \<notin> unwritable s"
    and "b0 \<noteq> []" "b1 \<noteq> []" "b2 \<noteq> []"
  shows "filePartDone s kFileChunkSize (MTPupload_file b1) =
            Inr (s\<lparr> fileProcess := Some (p\<lparr> fp_requests :=
                   [placeholder 0, \<lparr> rq_offset = kFileChunkSize, rq_bytes = b1 \<rparr>,
                    placeholder (2 * kFileChunkSize)] \<rparr>) \<rparr>)"
proof -
  have f: "fill_request (fp_requests p) kFileChunkSize b1
        = Some [placeholder 0, \<lparr> rq_offset = kFileChunkSize, rq_bytes = b1 \<rparr>,
                    placeholder (2 * kFileChunkSize)]"
    unfolding assms(2) by (simp add: placeholder_def kFileChunkSize_def)
  have w: "write_ready s (fp_file p) [placeholder 0, \<lparr> rq_offset = kFileChunkSize, rq_bytes = b1 \<rparr>,
                    placeholder (2 * kFileChunkSize)]
        = (True, s, [placeholder 0, \<lparr> rq_offset = kFileChunkSize, rq_bytes = b1 \<rparr>,
                    placeholder (2 * kFileChunkSize)])"
    by (simp add: placeholder_def)
  have l: "loadFilePart (s\<lparr> fileProcess := Some (p\<lparr> fp_requests :=
                   [placeholder 0, \<lparr> rq_offset = kFileChunkSize, rq_bytes = b1 \<rparr>,
                    placeholder (2 * kFileChunkSize)] \<rparr>) \<rparr>)
         = Inr (s\<lparr> fileProcess := Some (p\<lparr> fp_requests :=
                   [placeholder 0, \<lparr> rq_offset = kFileChunkSize, rq_bytes = b1 \<rparr>,
                    placeholder (2 * kFileChunkSize)] \<rparr>) \<rparr>)"
    by (simp add: loadFilePart_def kFileRequestsCount_def)
  have ne: "fp_requests p \<noteq> []" unfolding assms(2) by simp
  show ?thesis
    unfolding filePartDone_def
    by (simp add: assms(1) ne assms(5) f w l Let_def del: fill_request.simps write_ready.simps)
qed

lemma chunk2_buffered:
  assumes "fileProcess s = Some p"
    and "fp_requests p = [placeholder 0, placeholder kFileChunkSize, placeholder (2 * kFileChunkSize)]"
    and "fp_file p \<notin> unwritable s"
    and "b0 \<noteq> []" "b1 \<noteq> []" "b2 \<noteq> []"
  shows "filePartDone s (2 * kFileChunkSize) (MTPupload_file b2) =
            Inr (s\<lparr> fileProcess := Some (p\<lparr> fp_requests :=
                   [placeholder 0, placeholder kFileChunkSize,
                    \<lparr> rq_offset = 2 * kFileChunkSize, rq_bytes = b2 \<rparr>] \<rparr>) \<rparr>)"
proof -
  have f: "fill_request (fp_requests p) (2 * kFileChunkSize) b2
        = Some [placeholder 0, placeholder kFileChunkSize,
                    \<lparr> rq_offset = 2 * kFileChunkSize, rq_bytes = b2 \<rparr>]"
    unfolding assms(2) by (simp add: placeholder_def kFileChunkSize_def)
  have w: "write_ready s (fp_file p) [placeholder 0, placeholder kFileChunkSize,
                    \<lparr> rq_offset = 2 * kFileChunkSize, rq_bytes = b2 \<rparr>]
        = (True, s, [placeholder 0, placeholder kFileChunkSize,
                    \<lparr> rq_offset = 2 * kFileChunkSize, rq_bytes = b2 \<rparr>])"
    by (simp add: placeholder_def)
  have l: "loadFilePart (s\<lparr> fileProcess := Some (p\<lparr> fp_requests :=
                   [placeholder 0, placeholder kFileChunkSize,
                    \<lparr> rq_offset = 2 * kFileChunkSize, rq_bytes = b2 \<rparr>] \<rparr>) \<rparr>)
         = Inr (s\<lparr> fileProcess := Some (p\<lparr> fp_requests :=
                   [placeholder 0, placeholder kFileChunkSize,
                    \<lparr> rq_offset = 2 * kFileChunkSize, rq_bytes = b2 \<rparr>] \<rparr>) \<rparr>)"
    by (simp add: loadFilePart_def kFileRequestsCount_def)
  have ne: "fp_requests p \<noteq> []" unfolding assms(2) by simp
  show ?thesis
    unfolding filePartDone_def
    by (simp add: assms(1) ne assms(6) f w l Let_def del: fill_request.simps write_ready.simps)
qed

text \<open>
  Claim C1.  Let the active transfer await the chunks at the offsets 0, \<open>kFileChunkSize\<close>
  and \<open>2 * kFileChunkSize\<close> (three placeholders in its queue), let its file be
  writable and the chunks \<open>b0\<close>, \<open>b1\<close>, \<open>b2\<close> non-empty, and let \<open>ds\<close> be the three
  responses in any order.  Whenever the three calls of \<open>filePartDone\<close> return, the file
  holds what it held before followed by \<open>b0\<close>, \<open>b1\<close>, \<open>b2\<close>, the same bytes as after
  the delivery in the order of the offsets; and they do return when the transfer goes
  on after the three chunks (\<open>can_continue\<close>).  A chunk that arrives before the chunk at
  offset 0 is stored in its slot of the queue and nothing else changes.  After any part
  of the responses, in any order, the file holds the bytes of a prefix of the chunks,
  all of which have arrived.
\<close>

theorem chunks_reassembled:
  assumes "fileProcess s = Some p"
    and "fp_requests p = [placeholder 0, placeholder kFileChunkSize, placeholder (2 * kFileChunkSize)]"
    and "fp_file p \<notin> unwritable s"
    and "b0 \<noteq> []" "b1 \<noteq> []" "b2 \<noteq> []"
    and "set ds = set (chunks3 b0 b1 b2)" "distinct (map fst ds)"
  shows "(\<forall>s'. deliver s ds = Inr s' \<longrightarrow>
            disk s' (fp_file p) = disk s (fp_file p) @ b0 @ b1 @ b2)
       \<and> (\<forall>s' s''. deliver s ds = Inr s' \<and> deliver s (chunks3 b0 b1 b2) = Inr s'' \<longrightarrow>
            disk s' (fp_file p) = disk s'' (fp_file p))
       \<and> (can_continue s 3 \<longrightarrow> (\<exists>s'. deliver s ds = Inr s'))
       \<and> filePartDone s kFileChunkSize (MTPupload_file b1) =
            Inr (s\<lparr> fileProcess := Some (p\<lparr> fp_requests :=
                   [placeholder 0, \<lparr> rq_offset = kFileChunkSize, rq_bytes = b1 \<rparr>,
                    placeholder (2 * kFileChunkSize)] \<rparr>) \<rparr>)
       \<and> filePartDone s (2 * kFileChunkSize) (MTPupload_file b2) =
            Inr (s\<lparr> fileProcess := Some (p\<lparr> fp_requests :=
                   [placeholder 0, placeholder kFileChunkSize,
                    \<lparr> rq_offset = 2 * kFileChunkSize, rq_bytes = b2 \<rparr>] \<rparr>) \<rparr>)
       \<and> (\<forall>part s'. set part \<subseteq> set (chunks3 b0 b1 b2) \<and> distinct (map fst part)
              \<and> deliver s part = Inr s' \<longrightarrow>
            (\<exists>k \<le> 3. disk s' (fp_file p)
                        = disk s (fp_file p) @ concat (map snd (take k (chunks3 b0 b1 b2)))
                     \<and> set (take k (chunks3 b0 b1 b2)) \<subseteq> set part))"
proof -
  let ?C = "chunks3 b0 b1 b2"
  note inv = chunks3_inv[OF assms(1-6)]
  have dC: "distinct (map fst ?C)" by (simp add: chunks3_def kFileChunkSize_def)
  have cat: "concat (map snd ?C) = b0 @ b1 @ b2" by (simp add: chunks3_def)
  have one: "disk s' (fp_file p) = disk s (fp_file p) @ b0 @ b1 @ b2"
    if "set ds' = set ?C" "distinct (map fst ds')" "deliver s ds' = Inr s'" for ds' s'
    using deliver_all_chunks[OF inv that] cat by simp
  have a: "\<forall>s'. deliver s ds = Inr s' \<longrightarrow> disk s' (fp_file p) = disk s (fp_file p) @ b0 @ b1 @ b2"
  proof (intro allI impI)
    fix s' assume "deliver s ds = Inr s'"
    then show "disk s' (fp_file p) = disk s (fp_file p) @ b0 @ b1 @ b2"
      by (rule one[OF assms(7,8)])
  qed
  have b: "\<forall>s' s''. deliver s ds = Inr s' \<and> deliver s ?C = Inr s'' \<longrightarrow>
            disk s' (fp_file p) = disk s'' (fp_file p)"
  proof (intro allI impI, elim conjE)
    fix s' s'' assume x: "deliver s ds = Inr s'" and y: "deliver s ?C = Inr s''"
    have "disk s' (fp_file p) = disk s (fp_file p) @ b0 @ b1 @ b2"
      by (rule one[OF assms(7,8) x])
    moreover have "disk s'' (fp_file p) = disk s (fp_file p) @ b0 @ b1 @ b2"
      by (rule one[OF refl dC y])
    ultimately show "disk s' (fp_file p) = disk s'' (fp_file p)" by (simp only:)
  qed
  have c: "can_continue s 3 \<longrightarrow> (\<exists>s'. deliver s ds = Inr s')"
  proof
    assume "can_continue s 3"
    moreover have "length ?C = 3" by (simp add: chunks3_def)
    ultimately have cc: "can_continue s (length ?C)" by (simp only:)
    from assms(7) have m: "\<forall>d \<in> set ds. d \<in> set ?C \<and> fst d \<notin> {}" by simp
    show "\<exists>s'. deliver s ds = Inr s'"
      by (rule deliver_continues[OF inv m assms(8) cc])
  qed
  note d1 = chunk1_buffered[OF assms(1-6)]
  note d2 = chunk2_buffered[OF assms(1-6)]
  have e: "\<forall>part s'. set part \<subseteq> set ?C \<and> distinct (map fst part) \<and> deliver s part = Inr s' \<longrightarrow>
            (\<exists>k \<le> 3. disk s' (fp_file p) = disk s (fp_file p) @ concat (map snd (take k ?C))
                     \<and> set (take k ?C) \<subseteq> set part)"
  proof (intro allI impI)
    fix part s'
    assume h: "set part \<subseteq> set ?C \<and> distinct (map fst part) \<and> deliver s part = Inr s'"
    have hp: "set part \<subseteq> set ?C" by (rule h[THEN conjunct1])
    have hd: "distinct (map fst part)" by (rule h[THEN conjunct2, THEN conjunct1])
    have hl: "deliver s part = Inr s'" by (rule h[THEN conjunct2, THEN conjunct2])
    from hp have m: "\<forall>d \<in> set part. d \<in> set ?C \<and> fst d \<notin> {}" by blast
    from deliver_chunks[OF inv m hd hl] obtain W C' where
      r: "?C = W @ C'" "fst ` set W \<subseteq> {} \<union> fst ` set part"
         "disk s' (fp_file p) = disk s (fp_file p) @ concat (map snd W)"
      by blast
    from r(2) have sub: "fst ` set W \<subseteq> fst ` set part" by (simp only: Un_empty_left)
    note pw = prefix_written[OF dC r(1) sub hp]
    have w: "take (length W) ?C = W" "set W \<subseteq> set part"
      by (rule pw[THEN conjunct1], rule pw[THEN conjunct2])
    have "length ?C = 3" by (simp add: chunks3_def)
    then have "length (W @ C') = 3" by (simp only: r(1)[symmetric])
    then have "length W \<le> 3" by simp
    with w r(3) show "\<exists>k \<le> 3. disk s' (fp_file p) = disk s (fp_file p) @ concat (map snd (take k ?C))
                     \<and> set (take k ?C) \<subseteq> set part"
      by (intro exI[of _ "length W"]) (simp only:)
  qed
  show ?thesis
    apply (rule conjI, rule a)
    apply (rule conjI, rule b)
    apply (rule conjI, rule c)
    apply (rule conjI, rule d1)
    apply (rule conjI, rule d2)
    apply (rule e)
    done
qed


theorem chunks_reassembled_witness:
  "(\<exists>s'. deliver api3 [(2 * kFileChunkSize, [3]), (0, [1]), (kFileChunkSize, [2])] = Inr s'
         \<and> disk s' (qstr ''export/a.jpg'') = [1, 2, 3])
   \<and> (\<exists>s'. deliver api3 (chunks3 [1] [2] [3]) = Inr s'
         \<and> disk s' (qstr ''export/a.jpg'') = [1, 2, 3])"
proof -
  let ?ds = "[(2 * kFileChunkSize, [3]), (0, [1]), (kFileChunkSize, [2 :: 8 word])]"
  have p: "fileProcess api3 = Some fp3" by (simp add: api3_def)
  have q: "fp_requests fp3 = [placeholder 0, placeholder kFileChunkSize, placeholder (2 * kFileChunkSize)]"
    by (simp add: fp3_def)
  have f: "fp_file fp3 = qstr ''export/a.jpg''" by (simp add: fp3_def)
  have w: "fp_file fp3 \<notin> unwritable api3"
    by (simp add: api3_def api1_def api0_def ApiWrap_new_def)
  have d0: "disk api3 (fp_file fp3) = []"
    by (simp add: api3_def api1_def api0_def ApiWrap_new_def)
  have n: "[1 :: 8 word] \<noteq> []" "[2 :: 8 word] \<noteq> []" "[3 :: 8 word] \<noteq> []" by simp_all
  have s: "set ?ds = set (chunks3 [1] [2] [3])" by (auto simp: chunks3_def)
  have s2: "set (chunks3 [1] [2] [3 :: 8 word]) = set (chunks3 [1] [2] [3])" ..
  have di: "distinct (map fst ?ds)" "distinct (map fst (chunks3 [1] [2] [3 :: 8 word]))"
    by (simp_all add: kFileChunkSize_def chunks3_def)
  have cc: "can_continue api3 3"
    by (simp add: can_continue_def api3_def api1_def fp3_def locA_def)
  note t1 = chunks_reassembled[OF p q w n s di(1)]
  note t2 = chunks_reassembled[OF p q w n s2 di(2)]
  from t1 cc obtain s' where a: "deliver api3 ?ds = Inr s'" by blast
  from t1 a have "disk s' (fp_file fp3) = disk api3 (fp_file fp3) @ [1] @ [2] @ [3]" by blast
  with d0 f have a': "disk s' (qstr ''export/a.jpg'') = [1, 2, 3]" by simp
  from t2 cc obtain s'' where b: "deliver api3 (chunks3 [1] [2] [3]) = Inr s''" by blast
  from t2 b have "disk s'' (fp_file fp3) = disk api3 (fp_file fp3) @ [1] @ [2] @ [3]" by blast
  with d0 f have b': "disk s'' (qstr ''export/a.jpg'') = [1, 2, 3]" by simp
  from a a' b b' show ?thesis by blast
qed

section \<open>Bounds on what is active at a time\<close>

text \<open>
  Claim C8.  In every state that the calls and the responses can reach from a new
  \<open>ApiWrap\<close>, the queue of the requests of the active transfer holds at most
  \<open>kFileRequestsCount = 2\<close> requests; \<open>loadFile\<close> fails its precondition while a
  transfer is active, so that there is one transfer at most; and \<open>requestUserpics\<close> and
  \<open>requestDialogs\<close> fail their preconditions while a process of their own kind is
  active, so that there is one process of each kind at most.
\<close>

theorem concurrency_bounds:
  assumes "reachable s"
  shows "kFileRequestsCount = 2
       \<and> (\<forall>p. fileProcess s = Some p \<longrightarrow> length (fp_requests p) \<le> kFileRequestsCount)
       \<and> (fileProcess s \<noteq> None \<longrightarrow> (\<forall>file1 done. loadFile s file1 done = Inl ExpectsFailed))
       \<and> (userpicsProcess s \<noteq> None \<longrightarrow> requestUserpics s = Inl ExpectsFailed)
       \<and> (dialogsProcess s \<noteq> None \<longrightarrow> requestDialogs s = Inl ExpectsFailed)"
  using reachable_bounded[OF assms]
  by (auto simp: requests_bounded_def kFileRequestsCount_def loadFile_def requestUserpics_def
                 requestDialogs_def)

theorem concurrency_bounds_witness:
  "reachable (state_of (run api0 events_transfer))
   \<and> fileProcess (state_of (run api0 events_transfer)) \<noteq> None
   \<and> userpicsProcess (state_of (run api0 events_transfer)) \<noteq> None
   \<and> dialogsProcess (state_of (run api0 events_transfer)) \<noteq> None
   \<and> map_option (\<lambda>p. length (fp_requests p)) (fileProcess (state_of (run api0 events_transfer))) = Some 1
   \<and> loadFile (state_of (run api0 events_transfer)) file0 DoneUserpic = Inl ExpectsFailed
   \<and> requestUserpics (state_of (run api0 events_transfer)) = Inl ExpectsFailed
   \<and> requestDialogs (state_of (run api0 events_transfer)) = Inl ExpectsFailed"
proof -
  let ?s = "state_of (run api0 events_transfer)"
  note rt = run_transfer
  have r: "run api0 events_transfer = Some (Inr ?s)" by (rule rt[THEN conjunct1])
  have u: "userpicsProcess ?s \<noteq> None" by (rule rt[THEN conjunct2, THEN conjunct1])
  have d: "dialogsProcess ?s \<noteq> None" by (rule rt[THEN conjunct2, THEN conjunct2, THEN conjunct1])
  have q: "map_option fp_requests (fileProcess ?s) = Some [placeholder 0]"
    by (rule rt[THEN conjunct2, THEN conjunct2, THEN conjunct2])
  have re: "reachable ?s" by (rule run_reachable[OF reachable_api0 r])
  from q have f: "fileProcess ?s \<noteq> None" by auto
  from q have n: "map_option (\<lambda>p. length (fp_requests p)) (fileProcess ?s) = Some 1"
    by (cases "fileProcess ?s") auto
  from concurrency_bounds[OF re] f u d
  have "loadFile ?s file0 DoneUserpic = Inl ExpectsFailed"
    "requestUserpics ?s = Inl ExpectsFailed" "requestDialogs ?s = Inl ExpectsFailed"
    by blast+
  with re f u d n show ?thesis by blast
qed

text \<open>
  The process of the userpics and the process of the dialogs are active together after
  \<open>requestUserpics\<close> and \<open>requestDialogs\<close> were called one after the other: each
  of the two checks the pointer of its own process only.
\<close>

theorem two_paginated_processes_counterexample:
  "reachable (state_of (run api0 events_two_processes))
   \<and> userpicsProcess (state_of (run api0 events_two_processes)) \<noteq> None
   \<and> dialogsProcess (state_of (run api0 events_two_processes)) \<noteq> None"
proof -
  note rt = run_two
  have r: "run api0 events_two_processes = Some (Inr (state_of (run api0 events_two_processes)))"
    by (rule rt[THEN conjunct1])
  have "reachable (state_of (run api0 events_two_processes))"
    by (rule run_reachable[OF reachable_api0 r])
  with rt show ?thesis by blast
qed

section \<open>Responses that fail the transfer\<close>

text \<open>
  Claim C7.  While a transfer awaits the chunk at \<open>offset\<close>, a response with a CDN
  redirect leaves a state that differs from the state before in two fields only: the
  handler is gone, and the error stream has one more error.  No request is sent, the
  queue of the transfer and its file are as before, and its callback is not called.  A
  response with no bytes does the same, with an error of its own, when the size of the
  file is known and is not zero.
\<close>

theorem chunk_errors:
  assumes "fileProcess s = Some p" and "fp_requests p \<noteq> []"
    and "H_FilePart offset \<in> set (pending s)"
  shows "step s (Done (H_FilePart offset) (R_File MTPupload_fileCdnRedirect))
           = Some (Inr (s\<lparr> pending := remove1 (H_FilePart offset) (pending s),
                            errors := errors s @ [RPCError 0 (qstr ''API_ERROR: Cdn redirect is not supported.'')] \<rparr>))
       \<and> (fp_size p > 0 \<longrightarrow>
            step s (Done (H_FilePart offset) (R_File (MTPupload_file [])))
              = Some (Inr (s\<lparr> pending := remove1 (H_FilePart offset) (pending s),
                               errors := errors s @ [RPCError 0 (qstr ''API_ERROR: Empty bytes received in file part.'')] \<rparr>)))"
  using assms
  by (simp add: step_def filePartDone_def error_text_def error_rpc_def qstr_def)

theorem chunk_errors_witness:
  "(\<exists>s'. step (state_of (run api0 events_transfer))
            (Done (H_FilePart 0) (R_File MTPupload_fileCdnRedirect)) = Some (Inr s')
         \<and> errors s' = [RPCError 0 (qstr ''API_ERROR: Cdn redirect is not supported.'')]
         \<and> sent s' = sent (state_of (run api0 events_transfer))
         \<and> fileProcess s' = fileProcess (state_of (run api0 events_transfer))
         \<and> called s' = called (state_of (run api0 events_transfer)))
   \<and> (\<exists>s'. step (state_of (run api0 events_transfer))
            (Done (H_FilePart 0) (R_File (MTPupload_file []))) = Some (Inr s')
         \<and> errors s' = [RPCError 0 (qstr ''API_ERROR: Empty bytes received in file part.'')]
         \<and> sent s' = sent (state_of (run api0 events_transfer))
         \<and> fileProcess s' = fileProcess (state_of (run api0 events_transfer))
         \<and> called s' = called (state_of (run api0 events_transfer)))"
proof -
  let ?s = "state_of (run api0 events_transfer)"
  note rt = run_transfer
  note rf = run_transfer_file
  have q: "map_option fp_requests (fileProcess ?s) = Some [placeholder 0]"
    by (rule rt[THEN conjunct2, THEN conjunct2, THEN conjunct2])
  have z: "map_option fp_size (fileProcess ?s) = Some 5" by (rule rf[THEN conjunct1])
  have h: "H_FilePart 0 \<in> set (pending ?s)" by (rule rf[THEN conjunct2, THEN conjunct1])
  have e: "errors ?s = []" by (rule rf[THEN conjunct2, THEN conjunct2, THEN conjunct1])
  from q obtain p where p: "fileProcess ?s = Some p" and ne: "fp_requests p \<noteq> []" by auto
  from z p have pos: "fp_size p > 0" by simp
  note t = chunk_errors[OF p ne h]
  from t e have a: "\<exists>s'. step ?s (Done (H_FilePart 0) (R_File MTPupload_fileCdnRedirect)) = Some (Inr s')
         \<and> errors s' = [RPCError 0 (qstr ''API_ERROR: Cdn redirect is not supported.'')]
         \<and> sent s' = sent ?s \<and> fileProcess s' = fileProcess ?s \<and> called s' = called ?s"
    by simp
  from t pos e have b: "\<exists>s'. step ?s (Done (H_FilePart 0) (R_File (MTPupload_file []))) = Some (Inr s')
         \<and> errors s' = [RPCError 0 (qstr ''API_ERROR: Empty bytes received in file part.'')]
         \<and> sent s' = sent ?s \<and> fileProcess s' = fileProcess ?s \<and> called s' = called ?s"
    by simp
  from a b show ?thesis by (rule conjI)
qed

section \<open>The outcome of \<open>processFileLoad\<close>\<close>







text \<open>
  The two callers, \<open>loadNextUserpic\<close> and \<open>loadNextMessageFile\<close>, hand no message
  over, so that the file of every message counts as a photo: with the photos as the only
  type of the settings, the file of a message with a sticker is requested.
\<close>

lemma message_files_count_as_photos:
  "mediaType (Some sticker_message) = Type_Sticker
   \<and> media_types (st_media settings0) = {Type_Photo}
   \<and> settings api_sticker_slice = Some settings0
   \<and> map_sum id (\<lambda>r. (fst r, sent (snd r))) (loadNextMessageFile_loop api_sticker_slice)
       = Inr (False, [MTPupload_GetFile locA 0])"
  by (simp add: api_sticker_slice_def sticker_message_def mediaType_def dp12_def
                loadNextMessageFile_loop.simps set_message_file_def transfer_eval api1_def)


end
